theory Spec2Isabelle
  imports Main "HOL-Library.AList" "HOL-Library.Sublist"
begin

section \<open>Data model\<close>

text \<open>
  Monitors are JSON documents.  A Python \<open>dict\<close> keeps its keys in insertion order, so a
  dictionary is an association list: \<open>map_of\<close> reads a key, \<open>AList.update\<close> assigns
  one (in place when the key exists, at the end otherwise) and \<open>AList.delete\<close> is
  \<open>del d[k]\<close> once the key is known to be present.  Numbers that are not integers never
  take part in the operations below and are not represented.
\<close>

datatype json =
    JNull
  | JBool bool
  | JInt int
  | JStr string
  | JList "json list"
  | JDict "(string \<times> json) list"

type_synonym 'v pydict = "(string \<times> 'v) list"

text \<open>
  The monitor wrapper \<open>{"_id": .., "_version": .., "monitor": {"name": .., ...}}\<close>.
  The fields the tool reads by name are typed as the OpenSearch schema has them;
  \<open>m_body\<close> holds every key of \<open>"monitor"\<close> other than \<open>"name"\<close>.  \<open>m_id\<close> is \<open>None\<close>
  when a local file has no \<open>"_id"\<close> key and \<open>Some []\<close> when the key holds a falsy value.
\<close>

record monitor =
  m_id :: "string option"
  m_version :: int
  m_name :: string
  m_body :: "json pydict"

text \<open>The inner \<open>"monitor"\<close> dictionary: its name and its other keys.\<close>

type_synonym content = "string \<times> json pydict"

definition content_of :: "monitor \<Rightarrow> content" where
  "content_of m = (m_name m, m_body m)"

datatype py_error =
    KeyError
  | TypeError
  | OSError
  | EOFError
  | ValueError
  | SystemExit
  | OutsideModel

definition keys :: "'v pydict \<Rightarrow> string set" where
  "keys d = fst ` set d"

section \<open>helpers.py\<close>

subsection \<open>pathsafe\<close>

definition unsafe_chars :: "char list" where
  "unsafe_chars =
     [CHR 0x5C, CHR ''/'', CHR '':'', CHR ''*'', CHR ''?'', CHR 0x22, CHR ''<'', CHR ''>'',
      CHR ''|'']"

text \<open>The loop \<open>for char in s: if char in unsafe_chars: return False\<close>, then \<open>return True\<close>.\<close>

fun scan_chars :: "string \<Rightarrow> bool" where
  "scan_chars [] = True"
| "scan_chars (c # cs) = (if c \<in> set unsafe_chars then False else scan_chars cs)"

definition pathsafe :: "string \<Rightarrow> bool" where
  "pathsafe s = (if s \<noteq> [] \<and> hd s = CHR '' '' then False else scan_chars s)"

subsection \<open>prepare_for_create\<close>

definition remove_keys :: "string list" where
  "remove_keys = [''enabled_time'', ''last_update_time'', ''data_sources'', ''owner'']"

text \<open>
  \<open>del content[key]\<close> inside \<open>try: ... except KeyError: continue\<close> is \<open>AList.delete\<close>, which
  changes nothing when the key is missing.  \<open>except KeyError: pass\<close> around a block:
\<close>

definition except_KeyError :: "py_error option \<Rightarrow> py_error option" where
  "except_KeyError e = (case e of Some KeyError \<Rightarrow> None | _ \<Rightarrow> e)"

text \<open>
  The trigger loops mutate nested objects in place and are left by the first exception.
  Each function returns the object as mutated so far and the exception that ended it
  (\<open>None\<close> when it ran to its end).  \<open>del action["id"]\<close> on each action in turn:
\<close>

fun strip_actions :: "json list \<Rightarrow> json list \<times> py_error option" where
  "strip_actions [] = ([], None)"
| "strip_actions (JDict a # rest) =
     (if map_of a ''id'' = None then (JDict a # rest, Some KeyError)
      else (case strip_actions rest of
              (rest', e) \<Rightarrow> (JDict (AList.delete ''id'' a) # rest', e)))"
| "strip_actions (a # rest) = (a # rest, Some TypeError)"

text \<open>
  \<open>for action in v\<close> for an arbitrary JSON value \<open>v\<close>: a list yields its elements, a
  dictionary its keys and a string its characters (strings both, on which \<open>del x["id"]\<close>
  is a \<open>TypeError\<close>); anything else is not iterable.
\<close>

fun strip_actions_of :: "json \<Rightarrow> json \<times> py_error option" where
  "strip_actions_of (JList as) = (case strip_actions as of (as', e) \<Rightarrow> (JList as', e))"
| "strip_actions_of (JDict d) = (JDict d, if d = [] then None else Some TypeError)"
| "strip_actions_of (JStr s) = (JStr s, if s = [] then None else Some TypeError)"
| "strip_actions_of v = (v, Some TypeError)"

text \<open>
  One round of the loop body for the trigger kind \<open>k\<close> (\<open>document_level_trigger\<close> or
  \<open>query_level_trigger\<close>):
  \<^verbatim>\<open>del trigger[k]["id"]\<close>, then \<^verbatim>\<open>for action in trigger[k]["actions"]: del action["id"]\<close>.
\<close>

fun strip_trigger :: "string \<Rightarrow> json \<Rightarrow> json \<times> py_error option" where
  "strip_trigger k (JDict t) =
     (case map_of t k of
        None \<Rightarrow> (JDict t, Some KeyError)
      | Some (JDict s) \<Rightarrow>
          (if map_of s ''id'' = None then (JDict t, Some KeyError)
           else
             (let s' = AList.delete ''id'' s in
              case map_of s' ''actions'' of
                None \<Rightarrow> (JDict (AList.update k (JDict s') t), Some KeyError)
              | Some acts \<Rightarrow>
                  (case strip_actions_of acts of
                     (acts', e) \<Rightarrow>
                       (JDict (AList.update k (JDict (AList.update ''actions'' acts' s')) t), e))))
      | Some v \<Rightarrow> (JDict t, Some TypeError))"
| "strip_trigger k v = (v, Some TypeError)"

fun strip_triggers :: "string \<Rightarrow> json list \<Rightarrow> json list \<times> py_error option" where
  "strip_triggers k [] = ([], None)"
| "strip_triggers k (t # ts) =
     (case strip_trigger k t of
        (t', Some e) \<Rightarrow> (t' # ts, Some e)
      | (t', None) \<Rightarrow> (case strip_triggers k ts of (ts', e) \<Rightarrow> (t' # ts', e)))"

text \<open>\<open>for trigger in content["triggers"]: ...\<close> with the lookup that opens it.\<close>

definition strip_block :: "string \<Rightarrow> json pydict \<Rightarrow> json pydict \<times> py_error option" where
  "strip_block k body =
     (case map_of body ''triggers'' of
        None \<Rightarrow> (body, Some KeyError)
      | Some (JList ts) \<Rightarrow>
          (case strip_triggers k ts of
             (ts', e) \<Rightarrow> (AList.update ''triggers'' (JList ts') body, e))
      | Some (JDict d) \<Rightarrow> (body, if d = [] then None else Some TypeError)
      | Some (JStr s) \<Rightarrow> (body, if s = [] then None else Some TypeError)
      | Some v \<Rightarrow> (body, Some TypeError))"

text \<open>
  \<open>prepare_for_create(monitor)\<close> works on \<open>monitor["monitor"]\<close> in place and returns that
  inner dictionary: the result is the argument as mutated and the value returned.  An
  unsafe name ends the process through \<open>helper.error\<close> (\<open>exit(1)\<close>); each trigger loop
  swallows a \<open>KeyError\<close> and lets any other exception through.
\<close>

definition prepare_for_create :: "monitor \<Rightarrow> py_error + monitor \<times> content" where
  "prepare_for_create monitor =
     (if \<not> pathsafe (m_name monitor) then Inl SystemExit
      else
        (let b1 = fold AList.delete remove_keys (m_body monitor) in
         case strip_block ''document_level_trigger'' b1 of
           (b2, e2) \<Rightarrow>
             (case except_KeyError e2 of
                Some e \<Rightarrow> Inl e
              | None \<Rightarrow>
                  (case strip_block ''query_level_trigger'' b2 of
                     (b3, e3) \<Rightarrow>
                       (case except_KeyError e3 of
                          Some e \<Rightarrow> Inl e
                        | None \<Rightarrow> Inr (monitor\<lparr>m_body := b3\<rparr>, (m_name monitor, b3)))))))"

section \<open>comparator.py\<close>

text \<open>
  \<open>DeepDiff\<close> is a library outside the repository.  It is a parameter \<open>dd\<close>: \<open>dd a b\<close> is
  \<open>None\<close> when \<open>DeepDiff(a, b)\<close> is empty (falsy) and \<open>Some j\<close>, with \<open>j\<close> its \<open>to_json()\<close>,
  otherwise.

  Both loops write into a dictionary of the \<open>Comparator\<close> object, passed in and returned.
  \<open>remote_monitors[monitor_id]\<close> and \<open>local_monitors[id]\<close> raise \<open>KeyError\<close> on a missing
  key, which nothing catches.
\<close>

fun compare_monitors ::
  "(content \<Rightarrow> content \<Rightarrow> string option) \<Rightarrow> string pydict \<Rightarrow> monitor pydict \<Rightarrow>
     monitor pydict \<Rightarrow> py_error + string pydict" where
  "compare_monitors dd monitor_diff [] remote_monitors = Inr monitor_diff"
| "compare_monitors dd monitor_diff ((monitor_id, contents) # rest) remote_monitors =
     (case map_of remote_monitors monitor_id of
        None \<Rightarrow> Inl KeyError
      | Some r \<Rightarrow>
          compare_monitors dd
            (case dd (content_of r) (content_of contents) of
               None \<Rightarrow> monitor_diff
             | Some j \<Rightarrow> AList.update monitor_id j monitor_diff)
            rest remote_monitors)"

text \<open>A recorded version gap: \<open>[local name, remote _version, local _version]\<close>.\<close>

type_synonym gap = "string \<times> int \<times> int"

fun check_version_state ::
  "gap pydict \<Rightarrow> monitor pydict \<Rightarrow> monitor pydict \<Rightarrow> py_error + gap pydict" where
  "check_version_state version_sync_mismatch local_monitors [] = Inr version_sync_mismatch"
| "check_version_state version_sync_mismatch local_monitors ((i, remote_version) # rest) =
     (case map_of local_monitors i of
        None \<Rightarrow> Inl KeyError
      | Some local_version \<Rightarrow>
          check_version_state
            (if m_version local_version < m_version remote_version
             then AList.update i
                    (m_name local_version, m_version remote_version, m_version local_version)
                    version_sync_mismatch
             else version_sync_mismatch)
            local_monitors rest)"

section \<open>The two stores and the operator\<close>

text \<open>
  The instance directory, as \<open>listdir\<close> enumerates it: plain files and monitor directories.
  A monitor directory holds \<open>monitor.json\<close>, \<open>metadata.json\<close>, \<open>README.md\<close> and possibly
  other entries.  A file is missing, unparsable, or holds a parsed document.  New
  directories are enumerated last.  Directory names are compared as written, which is
  what the file system does for a name that is one path segment; \<open>store_monitor\<close> and
  \<open>remove_monitor\<close> on any other name (empty, \<open>.\<close>, \<open>..\<close>, or holding a slash) end with
  \<open>OutsideModel\<close>, as do failures this tree cannot express.
\<close>

datatype 'a json_file = Missing | Garbled | Holds 'a

record mdir =
  monitor_json :: "monitor json_file"
  metadata_json :: "json pydict json_file"
  readme :: bool
  extras :: "string list"

datatype entry = File | Dir mdir

type_synonym tree = "(string \<times> entry) list"

text \<open>
  The calls a run makes, in order.  The subject of \<open>Confirm\<close> and \<open>CallCreate\<close> is the item
  the caller is handling (a monitor id, or a directory during clean-up); the source
  prints it before it asks.
\<close>

datatype event =
    Confirm string string bool
  | CallStore string string
  | CallRemove string
  | CallCreate string
  | CallUpdate string
  | CallSearch

text \<open>
  Command line, configuration and the parties outside the repository: \<open>DeepDiff\<close>, the
  random module and the OpenSearch server, whose answers are parameters.  A server
  call answers with an error when the status is not 200 (or 201), which the client
  turns into \<open>exit(1)\<close>.
\<close>

record 'srv env =
  arg_force :: bool
  arg_dryrun :: bool
  cfg_filter :: "string option"
  deepdiff :: "content \<Rightarrow> content \<Rightarrow> string option"
  random_suffix :: "nat \<Rightarrow> string"
  srv_search :: "'srv \<Rightarrow> py_error + monitor list"
  srv_channels :: "'srv \<Rightarrow> py_error option"
  srv_create :: "'srv \<Rightarrow> content \<Rightarrow> (py_error + monitor) \<times> 'srv"
  srv_update :: "'srv \<Rightarrow> string \<Rightarrow> content \<Rightarrow> py_error option \<times> 'srv"
  srv_get :: "'srv \<Rightarrow> string \<Rightarrow> py_error + monitor"

text \<open>
  Everything a run reads and writes: the directory tree, the server, the operator's
  remaining input lines, the random draws used, the trace, and the attributes of the
  objects \<open>local\<close>, \<open>remote\<close>, \<open>helper\<close> (the one of \<open>main\<close> and the one of \<open>local\<close>) and
  \<open>compare\<close>.
\<close>

record 'srv state =
  disk :: tree
  server :: 'srv
  stdin :: "string list"
  draws :: nat
  trace :: "event list"
  local_monitors :: "monitor pydict"
  local_cleanup :: "string pydict"
  remote_monitors :: "monitor pydict"
  confirm_all :: "bool pydict"
  local_confirm_all :: "bool pydict"
  version_sync_mismatch :: "gap pydict"
  monitor_diff :: "string pydict"

text \<open>
  A step returns its value or the exception that ended the process, and the state it
  left behind in either case.
\<close>

type_synonym ('a, 'srv) step = "'srv state \<Rightarrow> (py_error + 'a) \<times> 'srv state"

definition and_then :: "('a, 'srv) step \<Rightarrow> ('a \<Rightarrow> ('b, 'srv) step) \<Rightarrow> ('b, 'srv) step" where
  "and_then f g s = (case f s of (Inl e, s') \<Rightarrow> (Inl e, s') | (Inr a, s') \<Rightarrow> g a s')"

definition log :: "event \<Rightarrow> 'srv state \<Rightarrow> 'srv state" where
  "log ev s = s\<lparr>trace := trace s @ [ev]\<rparr>"

subsection \<open>helper.confirm\<close>

text \<open>\<open>str.lower\<close> on the ASCII letters (the only ones the comparisons below can meet).\<close>

definition lower :: "string \<Rightarrow> string" where
  "lower = map (\<lambda>c. let n = (of_char c :: nat) in if 65 \<le> n \<and> n \<le> 90 then char_of (n + 32) else c)"

text \<open>
  \<open>while confirmation == "": confirmation = input(...)\<close>: empty lines are skipped; at the
  end of the input \<open>input\<close> raises \<open>EOFError\<close>.
\<close>

fun read_answer :: "string list \<Rightarrow> string option \<times> string list" where
  "read_answer [] = (None, [])"
| "read_answer (x # xs) = (if x = [] then read_answer xs else (Some x, xs))"

definition confirm_with ::
  "bool \<Rightarrow> bool pydict \<Rightarrow> string list \<Rightarrow> string \<Rightarrow>
     (py_error + bool) \<times> bool pydict \<times> string list" where
  "confirm_with force latch inp ev =
     (if force then (Inr True, latch, inp)
      else if map_of latch ev = Some True then (Inr True, latch, inp)
      else
        (let latch' = (if map_of latch ev = None then AList.update ev False latch else latch) in
         case read_answer inp of
           (None, inp') \<Rightarrow> (Inl EOFError, latch', inp')
         | (Some a, inp') \<Rightarrow>
             if lower a \<in> set [''y'', ''yes''] then (Inr True, latch', inp')
             else if lower a \<in> set [''a'', ''all''] then
               (Inr True, AList.update ev True latch', inp')
             else (Inr False, latch', inp')))"

text \<open>\<open>helper.confirm\<close> of \<open>main\<close>, and \<open>self.helper.confirm\<close> of the local store.\<close>

definition confirm :: "'srv env \<Rightarrow> string \<Rightarrow> string \<Rightarrow> (bool, 'srv) step" where
  "confirm env subject ev s =
     (case confirm_with (arg_force env) (confirm_all s) (stdin s) ev of
        (r, latch, inp) \<Rightarrow>
          (r, (case r of Inr b \<Rightarrow> log (Confirm subject ev b) | Inl e \<Rightarrow> (\<lambda>x. x))
                (s\<lparr>confirm_all := latch, stdin := inp\<rparr>)))"

definition local_confirm :: "'srv env \<Rightarrow> string \<Rightarrow> string \<Rightarrow> (bool, 'srv) step" where
  "local_confirm env subject ev s =
     (case confirm_with (arg_force env) (local_confirm_all s) (stdin s) ev of
        (r, latch, inp) \<Rightarrow>
          (r, (case r of Inr b \<Rightarrow> log (Confirm subject ev b) | Inl e \<Rightarrow> (\<lambda>x. x))
                (s\<lparr>local_confirm_all := latch, stdin := inp\<rparr>)))"

section \<open>localstorage.py\<close>

definition plain_name :: "string \<Rightarrow> bool" where
  "plain_name n = (n \<noteq> [] \<and> n \<noteq> ''.'' \<and> n \<noteq> ''..'' \<and> CHR ''/'' \<notin> set n)"

definition dotfile :: "string \<Rightarrow> bool" where
  "dotfile x = (x \<noteq> [] \<and> hd x = CHR ''.'')"

fun is_dir :: "entry \<Rightarrow> bool" where
  "is_dir (Dir d) = True"
| "is_dir File = False"

subsection \<open>store_monitor\<close>

text \<open>
  \<open>makedirs\<close> (an existing path is tolerated), then \<open>monitor.json\<close> is written, and
  \<open>metadata.json\<close> when the metadata is not empty.  Opening the file below a plain file
  fails.
\<close>

definition write_monitor :: "tree \<Rightarrow> monitor \<Rightarrow> json pydict \<Rightarrow> py_error + tree" where
  "write_monitor t m metadata =
     (if \<not> plain_name (m_name m) then Inl OutsideModel
      else
        (case map_of t (m_name m) of
           None \<Rightarrow>
             Inr (t @ [(m_name m,
                    Dir \<lparr>monitor_json = Holds m,
                         metadata_json = (if metadata = [] then Missing else Holds metadata),
                         readme = False, extras = []\<rparr>)])
         | Some File \<Rightarrow> Inl OSError
         | Some (Dir d) \<Rightarrow>
             Inr (AList.update (m_name m)
                    (Dir (d\<lparr>monitor_json := Holds m,
                            metadata_json :=
                              (if metadata = [] then metadata_json d else Holds metadata)\<rparr>))
                    t)))"

definition store_monitor ::
  "'srv env \<Rightarrow> string \<Rightarrow> monitor \<Rightarrow> json pydict \<Rightarrow> (unit, 'srv) step" where
  "store_monitor env monitor_id monitor_contents metadata s =
     (let s1 = log (CallStore monitor_id (m_name monitor_contents)) s in
      if arg_dryrun env then (Inr (), s1)
      else
        (case write_monitor (disk s1) monitor_contents metadata of
           Inl e \<Rightarrow> (Inl e, s1)
         | Inr t \<Rightarrow> (Inr (), s1\<lparr>disk := t\<rparr>)))"

subsection \<open>remove_monitor\<close>

text \<open>
  The three known files are removed (a missing one is tolerated), then \<open>rmdir\<close>: it fails
  on a missing directory and on one that still holds other entries, after the files are
  gone.
\<close>

definition remove_dir :: "tree \<Rightarrow> string \<Rightarrow> py_error option \<times> tree" where
  "remove_dir t n =
     (if \<not> plain_name n then (Some OutsideModel, t)
      else
        (case map_of t n of
           None \<Rightarrow> (Some OSError, t)
         | Some File \<Rightarrow> (Some OSError, t)
         | Some (Dir d) \<Rightarrow>
             if extras d = [] then (None, AList.delete n t)
             else
               (Some OSError,
                AList.update n
                  (Dir (d\<lparr>monitor_json := Missing, metadata_json := Missing, readme := False\<rparr>))
                  t)))"

definition remove_monitor :: "'srv env \<Rightarrow> string \<Rightarrow> (unit, 'srv) step" where
  "remove_monitor env monitor_name s =
     (let s1 = log (CallRemove monitor_name) s in
      if arg_dryrun env then (Inr (), s1)
      else
        (case remove_dir (disk s1) monitor_name of
           (Some e, t) \<Rightarrow> (Inl e, s1\<lparr>disk := t\<rparr>)
         | (None, t) \<Rightarrow> (Inr (), s1\<lparr>disk := t\<rparr>)))"

subsection \<open>load_monitors\<close>

text \<open>
  The loop over the directories listed when the call began; each is read from the tree
  as it is when its turn comes.  A directory without \<open>monitor.json\<close> is skipped; an
  unparsable file and a document without \<open>"_id"\<close> end the run through \<open>helper.error\<close>; a
  falsy id is replaced by \<open>"create"\<close> and ten random letters.  Then the de-duplication
  of lines 243-250.
\<close>

fun load_dirs ::
  "'srv env \<Rightarrow> string list \<Rightarrow> monitor pydict \<Rightarrow> (monitor pydict, 'srv) step" where
  "load_dirs env [] all_monitors s = (Inr all_monitors, s)"
| "load_dirs env (monitor_dir # rest) all_monitors s =
     (case map_of (disk s) monitor_dir of
        Some (Dir d) \<Rightarrow>
          (case monitor_json d of
             Missing \<Rightarrow> load_dirs env rest all_monitors s
           | Garbled \<Rightarrow> (Inl SystemExit, s)
           | Holds monitor \<Rightarrow>
               (case m_id monitor of
                  None \<Rightarrow> (Inl SystemExit, s)
                | Some i \<Rightarrow>
                    (let monitor_id =
                           (if i \<noteq> [] then i else ''create'' @ random_suffix env (draws s));
                         s1 = (if i \<noteq> [] then s else s\<lparr>draws := Suc (draws s)\<rparr>)
                     in
                       case map_of all_monitors monitor_id of
                         Some kept \<Rightarrow>
                           if m_version monitor > m_version kept then
                             (case remove_monitor env (m_name kept) s1 of
                                (Inl e, s2) \<Rightarrow> (Inl e, s2)
                              | (Inr u, s2) \<Rightarrow>
                                  load_dirs env rest
                                    (AList.update monitor_id monitor all_monitors) s2)
                           else
                             (case remove_monitor env (m_name monitor) s1 of
                                (Inl e, s2) \<Rightarrow> (Inl e, s2)
                              | (Inr u, s2) \<Rightarrow> load_dirs env rest all_monitors s2)
                       | None \<Rightarrow>
                           load_dirs env rest (AList.update monitor_id monitor all_monitors) s1)))
      | _ \<Rightarrow> load_dirs env rest all_monitors s)"

text \<open>\<open>self.config["filter"].lower() in monitor["monitor"]["name"].lower()\<close>.\<close>

definition passes_filter :: "'srv env \<Rightarrow> monitor \<Rightarrow> bool" where
  "passes_filter env m =
     (case cfg_filter env of
        None \<Rightarrow> True
      | Some f \<Rightarrow> f = [] \<or> sublist (lower f) (lower (m_name m)))"

definition load_monitors :: "'srv env \<Rightarrow> (unit, 'srv) step" where
  "load_monitors env s =
     (case load_dirs env [n. (n, e) \<leftarrow> disk s, \<not> dotfile n, is_dir e] [] s of
        (Inl e, s') \<Rightarrow> (Inl e, s')
      | (Inr all_monitors, s') \<Rightarrow>
          (Inr (), s'\<lparr>local_monitors := filter (\<lambda>(i, m). passes_filter env m) all_monitors\<rparr>))"

subsection \<open>clean_folders\<close>

definition dir_empty :: "mdir \<Rightarrow> bool" where
  "dir_empty d =
     (monitor_json d = Missing \<and> metadata_json d = Missing \<and> \<not> readme d \<and> extras d = [])"

text \<open>
  Lines 111-126, once the move is confirmed: the metadata is read and its file removed,
  \<open>README.md\<close> and \<open>monitor.json\<close> are removed, the directory is removed (which fails when
  other entries remain), and the monitor is stored under its name.
\<close>

definition move_dir :: "'srv env \<Rightarrow> string \<Rightarrow> mdir \<Rightarrow> monitor \<Rightarrow> (unit, 'srv) step" where
  "move_dir env monitor_dir d monitor s =
     (case metadata_json d of
        Garbled \<Rightarrow> (Inl ValueError, s)
      | meta \<Rightarrow>
          (let metadata = (case meta of Holds md \<Rightarrow> md | _ \<Rightarrow> []) in
           if extras d \<noteq> [] then
             (Inl OSError,
              s\<lparr>disk :=
                   AList.update monitor_dir
                     (Dir (d\<lparr>monitor_json := Missing, metadata_json := Missing,
                             readme := False\<rparr>))
                     (disk s)\<rparr>)
           else
             (let s1 = s\<lparr>disk := AList.delete monitor_dir (disk s)\<rparr> in
              case m_id monitor of
                None \<Rightarrow> (Inl KeyError, s1)
              | Some i \<Rightarrow> store_monitor env i monitor metadata s1)))"

fun clean_dirs :: "'srv env \<Rightarrow> string list \<Rightarrow> (unit, 'srv) step" where
  "clean_dirs env [] s = (Inr (), s)"
| "clean_dirs env (monitor_dir # rest) s =
     (case map_of (disk s) monitor_dir of
        None \<Rightarrow> (Inl OSError, s)
      | Some File \<Rightarrow> clean_dirs env rest s
      | Some (Dir d) \<Rightarrow>
          (case monitor_json d of
             Garbled \<Rightarrow> (Inl SystemExit, s)
           | Missing \<Rightarrow>
               if dir_empty d then
                 clean_dirs env rest (s\<lparr>disk := AList.delete monitor_dir (disk s)\<rparr>)
               else (Inl SystemExit, s)
           | Holds monitor \<Rightarrow>
               if \<not> pathsafe (m_name monitor) then (Inl SystemExit, s)
               else if monitor_dir \<noteq> m_name monitor then
                 (case local_confirm env monitor_dir ''mismatch'' s of
                    (Inl e, s1) \<Rightarrow> (Inl e, s1)
                  | (Inr confirmation, s1) \<Rightarrow>
                      (case (if confirmation then move_dir env monitor_dir d monitor s1
                             else (Inr (), s1)) of
                         (Inl e, s2) \<Rightarrow> (Inl e, s2)
                       | (Inr u, s2) \<Rightarrow>
                           clean_dirs env rest
                             (s2\<lparr>local_cleanup :=
                                   AList.update monitor_dir (m_name monitor)
                                     (local_cleanup s2)\<rparr>)))
               else clean_dirs env rest s))"

definition clean_folders :: "'srv env \<Rightarrow> (unit, 'srv) step" where
  "clean_folders env s =
     (if arg_dryrun env then (Inr (), s)
      else clean_dirs env [n. (n, e) \<leftarrow> disk s, \<not> dotfile n] s)"

section \<open>opensearchclient.py\<close>

text \<open>
  \<open>load_monitors\<close>: one search, then every hit gets \<open>last_update_time = 0\<close> and, when it
  passes the filter, is assigned to \<open>self.monitors\<close>, which is never reset.
\<close>

definition zero_update_time :: "monitor \<Rightarrow> monitor" where
  "zero_update_time m = m\<lparr>m_body := AList.update ''last_update_time'' (JInt 0) (m_body m)\<rparr>"

fun take_hits ::
  "'srv env \<Rightarrow> monitor list \<Rightarrow> monitor pydict \<Rightarrow> py_error option \<times> monitor pydict" where
  "take_hits env [] monitors = (None, monitors)"
| "take_hits env (hit # rest) monitors =
     (let monitor = zero_update_time hit in
      if passes_filter env monitor then
        (case m_id monitor of
           None \<Rightarrow> (Some KeyError, monitors)
         | Some i \<Rightarrow> take_hits env rest (AList.update i monitor monitors))
      else take_hits env rest monitors)"

definition remote_load_monitors :: "'srv env \<Rightarrow> (unit, 'srv) step" where
  "remote_load_monitors env s =
     (let s1 = log CallSearch s in
      case srv_search env (server s1) of
        Inl e \<Rightarrow> (Inl e, s1)
      | Inr hits \<Rightarrow>
          (case take_hits env hits (remote_monitors s1) of
             (Some e, ms) \<Rightarrow> (Inl e, s1\<lparr>remote_monitors := ms\<rparr>)
           | (None, ms) \<Rightarrow> (Inr (), s1\<lparr>remote_monitors := ms\<rparr>)))"

definition get_notification_channels :: "'srv env \<Rightarrow> (unit, 'srv) step" where
  "get_notification_channels env s =
     (case srv_channels env (server s) of Some e \<Rightarrow> (Inl e, s) | None \<Rightarrow> (Inr (), s))"

text \<open>
  Lines 418-427 of \<open>main\<close>: \<open>remote.create_monitor\<close> on the prepared content, then
  \<open>local.store_monitor\<close> on what it returns, then the notification text, which reads
  \<open>monitor_type\<close>.  In a dry run \<open>create_monitor\<close> returns \<open>monitor["_id"], monitor\<close> for
  the content it was given, and the caller then reads that content as a wrapper; nothing
  is written either way.
\<close>

definition dry_create :: "json pydict \<Rightarrow> py_error option" where
  "dry_create body =
     (case map_of body ''_id'' of
        None \<Rightarrow> Some KeyError
      | Some i \<Rightarrow>
          (case map_of body ''monitor'' of
             None \<Rightarrow> Some KeyError
           | Some (JDict d) \<Rightarrow>
               if map_of d ''name'' = None \<or> map_of d ''monitor_type'' = None
               then Some KeyError else None
           | Some v \<Rightarrow> Some TypeError))"

definition create_and_store :: "'srv env \<Rightarrow> string \<Rightarrow> content \<Rightarrow> (unit, 'srv) step" where
  "create_and_store env subject c s =
     (let s1 = log (CallCreate subject) s in
      if arg_dryrun env then
        (case dry_create (snd c) of Some e \<Rightarrow> (Inl e, s1) | None \<Rightarrow> (Inr (), s1))
      else
        (case srv_create env (server s1) c of
           (Inl e, srv) \<Rightarrow> (Inl e, s1\<lparr>server := srv\<rparr>)
         | (Inr created, srv) \<Rightarrow>
             (let new_monitor = zero_update_time created; s2 = s1\<lparr>server := srv\<rparr> in
              case m_id new_monitor of
                None \<Rightarrow> (Inl KeyError, s2)
              | Some new_id \<Rightarrow>
                  and_then (store_monitor env new_id new_monitor [])
                    (\<lambda>u s3. if map_of (m_body new_monitor) ''monitor_type'' = None
                            then (Inl KeyError, s3) else (Inr (), s3))
                    s2)))"

text \<open>
  Lines 483-486: \<open>remote.update_monitor\<close> (a \<open>PUT\<close> and a \<open>GET\<close>; in a dry run it returns
  its arguments), then \<open>local.store_monitor\<close>.
\<close>

definition update_and_store :: "'srv env \<Rightarrow> string \<Rightarrow> monitor \<Rightarrow> (unit, 'srv) step" where
  "update_and_store env monitor_id monitor_contents s =
     (let s1 = log (CallUpdate monitor_id) s in
      if arg_dryrun env then store_monitor env monitor_id monitor_contents [] s1
      else
        (case srv_update env (server s1) monitor_id (content_of monitor_contents) of
           (Some e, srv) \<Rightarrow> (Inl e, s1\<lparr>server := srv\<rparr>)
         | (None, srv) \<Rightarrow>
             (case srv_get env srv monitor_id of
                Inl e \<Rightarrow> (Inl e, s1\<lparr>server := srv\<rparr>)
              | Inr updated \<Rightarrow>
                  store_monitor env monitor_id (zero_update_time updated) []
                    (s1\<lparr>server := srv\<rparr>))))"

section \<open>manager.py: the sync pass\<close>

text \<open>Lines 369-385: duplicate and unsafe names among the remote monitors.\<close>

fun integrity_check :: "string list \<Rightarrow> monitor pydict \<Rightarrow> py_error option" where
  "integrity_check duplicate_remote_names [] = None"
| "integrity_check duplicate_remote_names ((remote_id, remote_contents) # rest) =
     (if m_name remote_contents \<in> set duplicate_remote_names then Some SystemExit
      else if \<not> pathsafe (m_name remote_contents) then Some SystemExit
      else integrity_check (duplicate_remote_names @ [m_name remote_contents]) rest)"

text \<open>Lines 388-397: store new remote monitors.\<close>

fun adopt_loop :: "'srv env \<Rightarrow> monitor pydict \<Rightarrow> (unit, 'srv) step" where
  "adopt_loop env [] s = (Inr (), s)"
| "adopt_loop env ((monitor_id, r) # rest) s =
     (if map_of (local_monitors s) monitor_id \<noteq> None then adopt_loop env rest s
      else
        (case store_monitor env monitor_id r [] s of
           (Inl e, s1) \<Rightarrow> (Inl e, s1)
         | (Inr u, s1) \<Rightarrow>
             adopt_loop env rest
               (s1\<lparr>local_monitors := AList.update monitor_id r (local_monitors s1)\<rparr>)))"

definition adopt_remote_only :: "'srv env \<Rightarrow> (unit, 'srv) step" where
  "adopt_remote_only env s = adopt_loop env (remote_monitors s) s"

text \<open>
  Lines 401-431: create new local monitors.  The loop returns \<open>created_new\<close> and
  \<open>skipped\<close>; the skipped ids are deleted from \<open>local.monitors\<close> after it.
\<close>

fun offer_loop ::
  "'srv env \<Rightarrow> monitor pydict \<Rightarrow> bool \<Rightarrow> string list \<Rightarrow> (bool \<times> string list, 'srv) step" where
  "offer_loop env [] created_new skipped s = (Inr (created_new, skipped), s)"
| "offer_loop env ((monitor_id, m) # rest) created_new skipped s =
     (if map_of (remote_monitors s) monitor_id \<noteq> None then
        offer_loop env rest created_new skipped s
      else
        (case confirm env monitor_id ''general'' s of
           (Inl e, s1) \<Rightarrow> (Inl e, s1)
         | (Inr False, s1) \<Rightarrow> offer_loop env rest created_new (skipped @ [monitor_id]) s1
         | (Inr True, s1) \<Rightarrow>
             (case prepare_for_create m of
                Inl e \<Rightarrow> (Inl e, s1)
              | Inr (m', c) \<Rightarrow>
                  (case create_and_store env monitor_id c
                          (s1\<lparr>local_monitors := AList.update monitor_id m' (local_monitors s1)\<rparr>) of
                     (Inl e, s2) \<Rightarrow> (Inl e, s2)
                   | (Inr u, s2) \<Rightarrow> offer_loop env rest True skipped s2))))"

definition offer_local_only :: "'srv env \<Rightarrow> (bool, 'srv) step" where
  "offer_local_only env s =
     (case offer_loop env (local_monitors s) False [] s of
        (Inl e, s1) \<Rightarrow> (Inl e, s1)
      | (Inr (created_new, skipped), s1) \<Rightarrow>
          (Inr created_new, s1\<lparr>local_monitors := fold AList.delete skipped (local_monitors s1)\<rparr>))"

text \<open>Lines 433-435.\<close>

definition reload_if :: "'srv env \<Rightarrow> bool \<Rightarrow> (unit, 'srv) step" where
  "reload_if env created_new s =
     (if created_new then and_then (load_monitors env) (\<lambda>u. remote_load_monitors env) s
      else (Inr (), s))"

text \<open>Lines 441-460: pull newer remote versions.\<close>

fun pull_loop :: "'srv env \<Rightarrow> gap pydict \<Rightarrow> (unit, 'srv) step" where
  "pull_loop env [] s = (Inr (), s)"
| "pull_loop env ((i, info) # rest) s =
     (case confirm env i ''sync'' s of
        (Inl e, s1) \<Rightarrow> (Inl e, s1)
      | (Inr confirmation, s1) \<Rightarrow>
          if confirmation then
            (case (map_of (local_monitors s1) i, map_of (remote_monitors s1) i) of
               (Some l, Some r) \<Rightarrow>
                 (case store_monitor env i r [] s1 of
                    (Inl e, s2) \<Rightarrow> (Inl e, s2)
                  | (Inr u, s2) \<Rightarrow> pull_loop env rest s2)
             | _ \<Rightarrow> (Inl KeyError, s1))
          else pull_loop env rest s1)"

definition reconcile_versions :: "'srv env \<Rightarrow> (unit, 'srv) step" where
  "reconcile_versions env s =
     (case check_version_state (version_sync_mismatch s) (local_monitors s) (remote_monitors s) of
        Inl e \<Rightarrow> (Inl e, s)
      | Inr vsm \<Rightarrow>
          if vsm = [] then (Inr (), s\<lparr>version_sync_mismatch := vsm\<rparr>)
          else
            and_then (pull_loop env vsm)
              (\<lambda>u. and_then (load_monitors env) (\<lambda>u. clean_folders env))
              (s\<lparr>version_sync_mismatch := vsm\<rparr>))"

text \<open>Lines 465-491: push local changes.\<close>

fun push_loop :: "'srv env \<Rightarrow> string pydict \<Rightarrow> (unit, 'srv) step" where
  "push_loop env [] s = (Inr (), s)"
| "push_loop env ((monitor_id, difference) # rest) s =
     (case map_of (local_monitors s) monitor_id of
        None \<Rightarrow> (Inl KeyError, s)
      | Some l \<Rightarrow>
          (case confirm env monitor_id ''monitor_update'' s of
             (Inl e, s1) \<Rightarrow> (Inl e, s1)
           | (Inr confirmation, s1) \<Rightarrow>
               if confirmation then
                 (case update_and_store env monitor_id l s1 of
                    (Inl e, s2) \<Rightarrow> (Inl e, s2)
                  | (Inr u, s2) \<Rightarrow> push_loop env rest s2)
               else push_loop env rest s1))"

definition reconcile_content :: "'srv env \<Rightarrow> (unit, 'srv) step" where
  "reconcile_content env s =
     (case compare_monitors (deepdiff env) (monitor_diff s) (local_monitors s)
             (remote_monitors s) of
        Inl e \<Rightarrow> (Inl e, s)
      | Inr md \<Rightarrow>
          if md = [] then (Inr (), s\<lparr>monitor_diff := md\<rparr>)
          else push_loop env md (s\<lparr>monitor_diff := md\<rparr>))"

text \<open>
  A run with \<open>--sync\<close> (and possibly \<open>--force\<close>, \<open>--dryrun\<close>, \<open>--filter\<close>) on one instance, from
  line 206 to line 495: both stores are loaded and the notification channels fetched;
  the local folders are cleaned up and, if anything was flagged, reloaded; the remote
  names are checked; then the four stages.  The README generation that follows is not
  part of the model.
\<close>

definition load_and_clean :: "'srv env \<Rightarrow> (unit, 'srv) step" where
  "load_and_clean env =
     and_then (load_monitors env)
       (\<lambda>u. and_then (remote_load_monitors env)
         (\<lambda>u. and_then (get_notification_channels env)
           (\<lambda>u. and_then (clean_folders env)
             (\<lambda>u s. if local_cleanup s \<noteq> [] then load_monitors env s else (Inr (), s)))))"

definition check_remote_names :: "(unit, 'srv) step" where
  "check_remote_names s =
     (case integrity_check [] (remote_monitors s) of
        Some e \<Rightarrow> (Inl e, s)
      | None \<Rightarrow> (Inr (), s))"

definition reconcile :: "'srv env \<Rightarrow> (unit, 'srv) step" where
  "reconcile env =
     and_then (adopt_remote_only env)
       (\<lambda>u. and_then (offer_local_only env)
         (\<lambda>created_new. and_then (reload_if env created_new)
           (\<lambda>u. and_then (reconcile_versions env) (\<lambda>u. reconcile_content env))))"

definition sync_pass :: "'srv env \<Rightarrow> (unit, 'srv) step" where
  "sync_pass env = and_then (load_and_clean env) (\<lambda>u. and_then check_remote_names (\<lambda>u. reconcile env))"

text \<open>The state when \<open>main\<close> has built its objects for an instance.\<close>

definition start :: "tree \<Rightarrow> 'srv \<Rightarrow> string list \<Rightarrow> 'srv state" where
  "start t srv inp =
     \<lparr>disk = t, server = srv, stdin = inp, draws = 0, trace = [], local_monitors = [],
      local_cleanup = [], remote_monitors = [], confirm_all = [], local_confirm_all = [],
      version_sync_mismatch = [], monitor_diff = []\<rparr>"

section \<open>Auxiliary notions for the proofs\<close>

text \<open>
  A trigger on which the loop body for kind \<open>k\<close> raises \<open>KeyError\<close> before it changes
  anything, and a content on which the whole block for \<open>k\<close> changes nothing.
\<close>

definition frozen :: "string \<Rightarrow> json \<Rightarrow> bool" where
  "frozen k t =
     (case t of
        JDict d \<Rightarrow>
          (case map_of d k of
             None \<Rightarrow> True
           | Some (JDict s) \<Rightarrow> map_of s ''id'' = None
           | Some v \<Rightarrow> False)
      | v \<Rightarrow> False)"

definition settled :: "string \<Rightarrow> json pydict \<Rightarrow> bool" where
  "settled k b =
     (case map_of b ''triggers'' of
        None \<Rightarrow> True
      | Some (JList []) \<Rightarrow> True
      | Some (JList (t # ts)) \<Rightarrow> frozen k t
      | Some (JDict d) \<Rightarrow> d = []
      | Some (JStr s) \<Rightarrow> s = []
      | Some v \<Rightarrow> False)"

text \<open>
  Readings of a trace: the calls that change the server, the subjects the operator was
  asked about, and the ones declined.
\<close>

fun creates :: "event \<Rightarrow> bool" where
  "creates (CallCreate i) = True"
| "creates ev = False"

fun remote_write :: "event \<Rightarrow> bool" where
  "remote_write (CallCreate i) = True"
| "remote_write (CallUpdate i) = True"
| "remote_write ev = False"

fun is_store :: "event \<Rightarrow> bool" where
  "is_store (CallStore i n) = True"
| "is_store ev = False"


fun declined :: "event list \<Rightarrow> string list" where
  "declined [] = []"
| "declined (Confirm i k b # evs) = (if b then declined evs else i # declined evs)"
| "declined (ev # evs) = declined evs"


fun created :: "event list \<Rightarrow> string list" where
  "created [] = []"
| "created (CallCreate i # evs) = i # created evs"
| "created (ev # evs) = created evs"

fun updated :: "event list \<Rightarrow> string list" where
  "updated [] = []"
| "updated (CallUpdate i # evs) = i # updated evs"
| "updated (ev # evs) = updated evs"

fun stored :: "event list \<Rightarrow> (string \<times> string) list" where
  "stored [] = []"
| "stored (CallStore i n # evs) = (i, n) # stored evs"
| "stored (ev # evs) = stored evs"

text \<open>\<open>s'\<close> continues \<open>s\<close> by events that all satisfy \<open>P\<close>.\<close>

definition extends :: "(event \<Rightarrow> bool) \<Rightarrow> 'srv state \<Rightarrow> 'srv state \<Rightarrow> bool" where
  "extends P s s' = (\<exists>t. trace s' = trace s @ t \<and> list_all P t)"

text \<open>Nothing was sent to change the server between \<open>s\<close> and \<open>s'\<close>.\<close>

definition calm :: "'srv state \<Rightarrow> 'srv state \<Rightarrow> bool" where
  "calm s s' = (server s' = server s \<and> extends (\<lambda>ev. \<not> remote_write ev) s s')"

text \<open>
  A trace, read from its latest event back, in which every \<open>CallCreate\<close> directly follows
  the confirmation, answered yes, of the same subject.
\<close>

fun gated_back :: "event list \<Rightarrow> bool" where
  "gated_back [] = True"
| "gated_back (CallCreate i # earlier) =
     (case earlier of
        Confirm j k b # evs \<Rightarrow> j = i \<and> k = ''general'' \<and> b \<and> gated_back earlier
      | evs \<Rightarrow> False)"
| "gated_back (ev # earlier) = gated_back earlier"

definition gated :: "event list \<Rightarrow> bool" where
  "gated tr = gated_back (rev tr)"








section \<open>Example data\<close>

definition plain_monitor :: "string \<Rightarrow> int \<Rightarrow> string \<Rightarrow> monitor" where
  "plain_monitor i v n =
     \<lparr>m_id = Some i, m_version = v, m_name = n,
      m_body = [(''monitor_type'', JStr ''query_level_monitor'')]\<rparr>"

definition alert_a :: monitor where
  "alert_a =
     \<lparr>m_id = Some ''M1'', m_version = 3, m_name = ''Alert-A'',
      m_body =
        [(''enabled_time'', JInt 1700000000000),
         (''monitor_type'', JStr ''query_level_monitor''),
         (''triggers'',
          JList
            [JDict
               [(''query_level_trigger'',
                 JDict
                   [(''id'', JStr ''t1''), (''severity'', JStr ''1''),
                    (''actions'',
                     JList [JDict [(''id'', JStr ''a1''), (''name'', JStr ''notify'')]])])]]),
         (''owner'', JStr ''admin'')]\<rparr>"

definition alert_a_prepared :: monitor where
  "alert_a_prepared =
     \<lparr>m_id = Some ''M1'', m_version = 3, m_name = ''Alert-A'',
      m_body =
        [(''monitor_type'', JStr ''query_level_monitor''),
         (''triggers'',
          JList
            [JDict
               [(''query_level_trigger'',
                 JDict
                   [(''severity'', JStr ''1''),
                    (''actions'', JList [JDict [(''name'', JStr ''notify'')]])])]])]\<rparr>"

definition holding :: "monitor \<Rightarrow> entry" where
  "holding m = Dir \<lparr>monitor_json = Holds m, metadata_json = Missing, readme = False, extras = []\<rparr>"

text \<open>
  A server that answers a search with the monitors it holds and a creation with the
  content under the id \<open>srv-\<close> and the name, at version 1.
\<close>

definition demo_env :: "bool \<Rightarrow> bool \<Rightarrow> monitor list env" where
  "demo_env force dryrun =
     \<lparr>arg_force = force, arg_dryrun = dryrun, cfg_filter = None,
      deepdiff = (\<lambda>a b. if a = b then None else Some ''values_changed''),
      random_suffix = (\<lambda>n. ''qwertyuiop''),
      srv_search = (\<lambda>srv. Inr srv),
      srv_channels = (\<lambda>srv. None),
      srv_create =
        (\<lambda>srv c.
           (let m = \<lparr>m_id = Some (''srv-'' @ fst c), m_version = 1, m_name = fst c,
                     m_body = snd c\<rparr>
            in (Inr m, srv @ [m]))),
      srv_update = (\<lambda>srv i c. (None, srv)),
      srv_get =
        (\<lambda>srv i. case find (\<lambda>m. m_id m = Some i) srv of
                   None \<Rightarrow> Inl SystemExit
                 | Some m \<Rightarrow> Inr m)\<rparr>"

text \<open>
  Start states: a mismatching local folder with two remote monitors of one name; a local
  placeholder with an operator who accepts, and one who declines.
\<close>

definition clash_start :: "monitor list state" where
  "clash_start =
     start [(''old'', holding (plain_monitor ''M7'' 1 ''new''))]
       [plain_monitor ''R1'' 1 ''dup'', plain_monitor ''R2'' 1 ''dup''] []"

definition accept_start :: "monitor list state" where
  "accept_start = start [(''M2'', holding (plain_monitor [] 1 ''M2''))] [] [''yes'']"

definition decline_start :: "monitor list state" where
  "decline_start = start [(''M2'', holding (plain_monitor [] 1 ''M2''))] [] [''no'']"






definition misnamed_start :: "monitor list state" where
  "misnamed_start =
     start [(''old'', holding (plain_monitor ''M5'' 4 ''new'')),
            (''Alert-F'', holding (plain_monitor ''M5'' 6 ''Alert-F''))] [] []"

definition shared_name_start :: "monitor list state" where
  "shared_name_start =
     start [(''copy'', holding (plain_monitor ''M8'' 1 ''Alert-F'')),
            (''other'', holding (plain_monitor ''M8'' 2 ''other'')),
            (''Alert-E'', holding (plain_monitor ''M5'' 4 ''Alert-E'')),
            (''Alert-F'', holding (plain_monitor ''M5'' 6 ''Alert-F''))] [] []"

section \<open>Path safety\<close>

lemma scan_chars_iff: "scan_chars s \<longleftrightarrow> set s \<inter> set unsafe_chars = {}"
  by (induction s) auto

text \<open>
  C8 (as amended).  \<open>pathsafe\<close> returns \<open>False\<close> exactly for the strings that contain one of
  the nine characters \<open>\ / : * ? " < > |\<close> or whose first character is a space.  Only the
  space is tested at the front: other white space is accepted there.
\<close>

theorem pathsafe_rejects:
  "\<not> pathsafe s \<longleftrightarrow>
     (\<exists>c. c \<in> set s \<and> c \<in> set unsafe_chars) \<or> (\<exists>cs. s = CHR '' '' # cs)"
  by (cases s) (auto simp: pathsafe_def scan_chars_iff)

text \<open>
  C8 as stated fails: a name that starts with a tab, or with a newline, is path-safe for
  the code.
\<close>

theorem pathsafe_leading_tab_newline:
  "pathsafe (CHR 0x09 # ''abc'') \<and> pathsafe (CHR 0x0A # ''abc'')"
  by (simp add: pathsafe_def unsafe_chars_def)

text \<open>
  C10.  The empty string is path-safe, so a monitor with an empty name passes the check
  of the remote names and the check at the head of \<open>prepare_for_create\<close>.
\<close>

theorem pathsafe_empty:
  "pathsafe [] \<and>
   integrity_check [] [(i, m\<lparr>m_name := []\<rparr>)] = None \<and>
   prepare_for_create (m\<lparr>m_name := [], m_body := []\<rparr>) =
     Inr (m\<lparr>m_name := [], m_body := []\<rparr>, ([], []))"
  by (simp add: pathsafe_def prepare_for_create_def remove_keys_def strip_block_def
        except_KeyError_def)

section \<open>The comparator\<close>

lemma check_version_state_lookup:
  "distinct (map fst remote) \<Longrightarrow> check_version_state vsm loc remote = Inr vsm' \<Longrightarrow>
   map_of vsm' i =
     (case map_of remote i of
        None \<Rightarrow> map_of vsm i
      | Some r \<Rightarrow>
          (case map_of loc i of
             None \<Rightarrow> None
           | Some l \<Rightarrow>
               if m_version l < m_version r then Some (m_name l, m_version r, m_version l)
               else map_of vsm i))"
proof (induction vsm loc remote rule: check_version_state.induct)
  case (1 vsm loc)
  then show ?case by simp
next
  case (2 vsm loc j rv rest)
  from "2.prems" obtain l where l: "map_of loc j = Some l"
    by (auto split: option.splits)
  let ?v = "if m_version l < m_version rv
            then AList.update j (m_name l, m_version rv, m_version l) vsm else vsm"
  from "2.prems" l have run: "check_version_state ?v loc rest = Inr vsm'" by simp
  from "2.prems" have d: "distinct (map fst rest)" and nj: "map_of rest j = None"
    by (auto simp: map_of_eq_None_iff)
  note ih = "2.IH"[OF l d run]
  show ?case
  proof (cases "i = j")
    case True
    with ih nj l show ?thesis by (simp add: AList.update_conv')
  next
    case False
    with ih l show ?thesis by (auto simp: AList.update_conv' split: option.splits)
  qed
qed

lemma check_version_state_raises:
  "check_version_state vsm loc remote = Inl e \<longleftrightarrow>
     e = KeyError \<and> \<not> fst ` set remote \<subseteq> fst ` set loc"
proof (induction vsm loc remote rule: check_version_state.induct)
  case (1 vsm loc)
  then show ?case by simp
next
  case (2 vsm loc j rv rest)
  show ?case
  proof (cases "map_of loc j")
    case None
    then have "j \<notin> fst ` set loc" by (simp add: map_of_eq_None_iff)
    with None show ?thesis by auto
  next
    case (Some l)
    then have "j \<in> fst ` set loc" by (metis map_of_eq_None_iff option.distinct(1))
    with Some "2.IH"[OF Some] show ?thesis by simp
  qed
qed

lemma compare_monitors_raises:
  "compare_monitors dd md loc remote = Inl e \<longleftrightarrow>
     e = KeyError \<and> \<not> fst ` set loc \<subseteq> fst ` set remote"
proof (induction dd md loc remote rule: compare_monitors.induct)
  case (1 dd md remote)
  then show ?case by simp
next
  case (2 dd md j c rest remote)
  show ?case
  proof (cases "map_of remote j")
    case None
    then have "j \<notin> fst ` set remote" by (simp add: map_of_eq_None_iff)
    with None show ?thesis by auto
  next
    case (Some r)
    then have "j \<in> fst ` set remote" by (metis map_of_eq_None_iff option.distinct(1))
    with Some "2.IH"[OF Some] show ?thesis by simp
  qed
qed

text \<open>
  C4 (as amended).  Let \<open>i\<close> be an identity of both mappings, \<open>l\<close> its local and \<open>r\<close> its
  remote record, the remote mapping being a dictionary (distinct keys).  When every
  remote identity is present locally, \<open>check_version_state\<close> returns, and in the
  dictionary it leaves the entry of \<open>i\<close> is the gap (local name, remote version, local
  version) if the local version is strictly less than the remote one; otherwise the
  entry of \<open>i\<close> is what it was before the call (nothing, for a fresh comparator).  When
  some remote identity is missing locally, the call raises \<open>KeyError\<close>, which nothing
  catches, whatever the versions of \<open>i\<close> are.
\<close>

theorem check_version_state_gap:
  assumes "distinct (map fst remote)"
    and "map_of loc i = Some l"
    and "map_of remote i = Some r"
  shows "(keys remote \<subseteq> keys loc \<longrightarrow>
            (\<exists>vsm. check_version_state before loc remote = Inr vsm \<and>
               map_of vsm i =
                 (if m_version l < m_version r then Some (m_name l, m_version r, m_version l)
                  else map_of before i))) \<and>
         (\<not> keys remote \<subseteq> keys loc \<longrightarrow>
            check_version_state before loc remote = Inl KeyError)"
proof (intro conjI impI)
  assume sub: "keys remote \<subseteq> keys loc"
  show "\<exists>vsm. check_version_state before loc remote = Inr vsm \<and>
           map_of vsm i =
             (if m_version l < m_version r then Some (m_name l, m_version r, m_version l)
              else map_of before i)"
  proof (cases "check_version_state before loc remote")
    case (Inl e)
    with sub show ?thesis by (simp add: check_version_state_raises keys_def)
  next
    case (Inr vsm)
    from check_version_state_lookup[OF assms(1) Inr, of i] assms(2,3) Inr
    show ?thesis by simp
  qed
next
  assume "\<not> keys remote \<subseteq> keys loc"
  then show "check_version_state before loc remote = Inl KeyError"
    by (simp add: check_version_state_raises keys_def)
qed

theorem check_version_state_gap_witness:
  "map_of [(''M3'', ''Alert-C'', 5, 2)] ''M3'' = Some (''Alert-C'', 5, 2) \<and>
   (\<exists>vsm. check_version_state []
            [(''M3'', plain_monitor ''M3'' 2 ''Alert-C''),
             (''M4'', plain_monitor ''M4'' 5 ''Alert-D'')]
            [(''M4'', plain_monitor ''M4'' 5 ''Alert-D''),
             (''M3'', plain_monitor ''M3'' 5 ''Alert-C'')] = Inr vsm \<and>
          map_of vsm ''M3'' = Some (''Alert-C'', 5, 2) \<and> map_of vsm ''M4'' = None)"
proof -
  let ?loc = "[(''M3'', plain_monitor ''M3'' 2 ''Alert-C''),
               (''M4'', plain_monitor ''M4'' 5 ''Alert-D'')]"
  let ?rem = "[(''M4'', plain_monitor ''M4'' 5 ''Alert-D''),
               (''M3'', plain_monitor ''M3'' 5 ''Alert-C'')]"
  have d: "distinct (map fst ?rem)" and k: "keys ?rem \<subseteq> keys ?loc"
    by (simp_all add: keys_def)
  have a: "\<exists>vsm. check_version_state [] ?loc ?rem = Inr vsm \<and>
             map_of vsm ''M3'' = Some (''Alert-C'', 5, 2)"
    using check_version_state_gap[OF d, of ?loc "''M3''" "plain_monitor ''M3'' 2 ''Alert-C''"
        "plain_monitor ''M3'' 5 ''Alert-C''" "[]"] k
    by (simp add: plain_monitor_def)
  have b: "\<exists>vsm. check_version_state [] ?loc ?rem = Inr vsm \<and> map_of vsm ''M4'' = None"
    using check_version_state_gap[OF d, of ?loc "''M4''" "plain_monitor ''M4'' 5 ''Alert-D''"
        "plain_monitor ''M4'' 5 ''Alert-D''" "[]"] k
    by (simp add: plain_monitor_def)
  from a b show ?thesis by auto
qed

text \<open>
  C4 as stated fails: \<open>M3\<close> is in both mappings, at local version 2 and remote version 5,
  but the remote mapping enumerates \<open>M9\<close> first, which the local one lacks; the lookup of
  line 68 raises \<open>KeyError\<close> there, before \<open>M3\<close> is compared, and no gap is recorded.
\<close>

theorem gap_lost_to_missing_identity:
  "map_of [(''M3'', plain_monitor ''M3'' 2 ''Alert-C'')] ''M3'' =
     Some (plain_monitor ''M3'' 2 ''Alert-C'') \<and>
   map_of [(''M9'', plain_monitor ''M9'' 1 ''Alert-I''),
           (''M3'', plain_monitor ''M3'' 5 ''Alert-C'')] ''M3'' =
     Some (plain_monitor ''M3'' 5 ''Alert-C'') \<and>
   m_version (plain_monitor ''M3'' 2 ''Alert-C'') < m_version (plain_monitor ''M3'' 5 ''Alert-C'') \<and>
   check_version_state []
     [(''M3'', plain_monitor ''M3'' 2 ''Alert-C'')]
     [(''M9'', plain_monitor ''M9'' 1 ''Alert-I''),
      (''M3'', plain_monitor ''M3'' 5 ''Alert-C'')] = Inl KeyError"
  by (simp add: plain_monitor_def)


text \<open>
  C9.  \<open>compare_monitors\<close> raises \<open>KeyError\<close> exactly when some local identity is missing
  from the remote mapping, and \<open>check_version_state\<close> exactly when some remote identity is
  missing from the local mapping; in every other case each returns its dictionary.  No
  identity is skipped.
\<close>

theorem comparison_needs_containment:
  "(compare_monitors dd md loc remote = Inl KeyError \<longleftrightarrow>
      \<not> keys loc \<subseteq> keys remote) \<and>
   ((\<exists>d. compare_monitors dd md loc remote = Inr d) \<longleftrightarrow>
      keys loc \<subseteq> keys remote) \<and>
   (check_version_state vsm loc remote = Inl KeyError \<longleftrightarrow>
      \<not> keys remote \<subseteq> keys loc) \<and>
   ((\<exists>d. check_version_state vsm loc remote = Inr d) \<longleftrightarrow>
      keys remote \<subseteq> keys loc)"
proof -
  have c: "(\<exists>d. compare_monitors dd md loc remote = Inr d) \<longleftrightarrow>
             keys loc \<subseteq> keys remote"
    using compare_monitors_raises[of dd md loc remote]
    by (cases "compare_monitors dd md loc remote") (auto simp: keys_def)
  have v: "(\<exists>d. check_version_state vsm loc remote = Inr d) \<longleftrightarrow>
             keys remote \<subseteq> keys loc"
    using check_version_state_raises[of vsm loc remote]
    by (cases "check_version_state vsm loc remote") (auto simp: keys_def)
  from c v show ?thesis
    by (simp add: compare_monitors_raises check_version_state_raises keys_def)
qed

section \<open>Normalisation before creation\<close>

lemma except_KeyError_None: "except_KeyError e = None \<longleftrightarrow> e = None \<or> e = Some KeyError"
  by (auto simp: except_KeyError_def split: option.splits py_error.splits)

lemma frozen_strip: "frozen k t \<Longrightarrow> strip_trigger k t = (t, Some KeyError)"
  by (auto simp: frozen_def split: json.splits option.splits)

lemma strip_frozen:
  "strip_trigger k t = (t', e) \<Longrightarrow> except_KeyError e = None \<Longrightarrow> frozen k t'"
  by (cases t)
     (auto simp: frozen_def except_KeyError_None AList.update_conv' AList.delete_conv' Let_def
           split: json.splits option.splits if_splits prod.splits)

lemma frozen_other:
  "frozen k t \<Longrightarrow> k \<noteq> k2 \<Longrightarrow> strip_trigger k2 t = (t2, e2) \<Longrightarrow> frozen k t2"
  by (cases t)
     (auto simp: frozen_def AList.update_conv' Let_def
           split: json.splits option.splits if_splits prod.splits)

lemma strip_triggers_frozen:
  "frozen k t \<Longrightarrow> strip_triggers k (t # ts) = (t # ts, Some KeyError)"
  by (simp add: frozen_strip)

lemma strip_triggers_head:
  "strip_triggers k (t # ts) = (ts', e) \<Longrightarrow>
     \<exists>t' r e1. ts' = t' # r \<and> strip_trigger k t = (t', e1) \<and> (e1 = None \<or> e1 = e)"
  by (auto split: prod.splits option.splits)

lemma settled_strip:
  assumes "settled k b"
  shows "\<exists>e. strip_block k b = (b, e) \<and> except_KeyError e = None"
proof (cases "map_of b ''triggers''")
  case None
  then show ?thesis by (simp add: strip_block_def except_KeyError_def)
next
  case (Some v)
  show ?thesis
  proof (cases v)
    case (JList ts)
    show ?thesis
    proof (cases ts)
      case Nil
      with Some JList show ?thesis
        by (simp add: strip_block_def except_KeyError_def AList.update_triv)
    next
      case (Cons t rest)
      with assms Some JList have "frozen k t" by (simp add: settled_def)
      then have "strip_triggers k ts = (ts, Some KeyError)"
        unfolding Cons by (rule strip_triggers_frozen)
      with Some JList show ?thesis
        by (simp add: strip_block_def except_KeyError_def AList.update_triv)
    qed
  qed (use assms Some in \<open>auto simp: strip_block_def settled_def except_KeyError_def\<close>)
qed

lemma strip_settled:
  assumes "strip_block k b = (b', e)" and "except_KeyError e = None"
  shows "settled k b'"
proof (cases "map_of b ''triggers''")
  case None
  with assms show ?thesis by (simp add: strip_block_def settled_def)
next
  case (Some v)
  show ?thesis
  proof (cases v)
    case (JList ts)
    obtain ts' where r: "strip_triggers k ts = (ts', e)"
      and b': "b' = AList.update ''triggers'' (JList ts') b"
      using assms(1) Some JList by (auto simp: strip_block_def split: prod.splits)
    have look: "map_of b' ''triggers'' = Some (JList ts')"
      by (simp add: b' AList.update_conv')
    show ?thesis
    proof (cases ts)
      case Nil
      with r look show ?thesis by (simp add: settled_def)
    next
      case (Cons t rest)
      with r obtain t' r' e1 where ts': "ts' = t' # r'" and st: "strip_trigger k t = (t', e1)"
        and e1: "e1 = None \<or> e1 = e"
        using strip_triggers_head by blast
      from e1 assms(2) have "except_KeyError e1 = None" by (auto simp: except_KeyError_def)
      with st have "frozen k t'" by (rule strip_frozen)
      with look ts' show ?thesis by (simp add: settled_def)
    qed
  qed (use assms Some in
        \<open>auto simp: strip_block_def settled_def except_KeyError_def split: if_splits\<close>)
qed

lemma settled_other:
  assumes "settled k b" and "k \<noteq> k2" and "strip_block k2 b = (b2, e2)"
  shows "settled k b2"
proof (cases "map_of b ''triggers''")
  case None
  with assms show ?thesis by (simp add: strip_block_def)
next
  case (Some v)
  show ?thesis
  proof (cases v)
    case (JList ts)
    obtain ts' where r: "strip_triggers k2 ts = (ts', e2)"
      and b2: "b2 = AList.update ''triggers'' (JList ts') b"
      using assms(3) Some JList by (auto simp: strip_block_def split: prod.splits)
    have look: "map_of b2 ''triggers'' = Some (JList ts')"
      by (simp add: b2 AList.update_conv')
    show ?thesis
    proof (cases ts)
      case Nil
      with r look show ?thesis by (simp add: settled_def)
    next
      case (Cons t rest)
      with r obtain t' r' e1 where ts': "ts' = t' # r'" and st: "strip_trigger k2 t = (t', e1)"
        using strip_triggers_head by blast
      from assms(1) Some JList Cons have "frozen k t" by (simp add: settled_def)
      then have "frozen k t'" using assms(2) st by (rule frozen_other)
      with look ts' show ?thesis by (simp add: settled_def)
    qed
  qed (use assms Some in \<open>auto simp: strip_block_def settled_def split: if_splits\<close>)
qed

lemma update_present_keys:
  assumes "map_of b k = Some v"
  shows "fst ` set (AList.update k w b) = fst ` set b"
proof -
  from assms have "k \<in> fst ` set b" by (metis map_of_eq_None_iff option.distinct(1))
  then show ?thesis by (auto simp: AList.dom_update)
qed

lemma strip_block_keys:
  assumes "strip_block k b = (b', e)"
  shows "fst ` set b' = fst ` set b"
proof (cases "map_of b ''triggers''")
  case None
  with assms show ?thesis by (simp add: strip_block_def)
next
  case (Some v)
  show ?thesis
  proof (cases v)
    case (JList ts)
    with assms Some obtain ts' where "b' = AList.update ''triggers'' (JList ts') b"
      by (auto simp: strip_block_def split: prod.splits)
    with Some show ?thesis by (simp add: update_present_keys)
  qed (use assms Some in \<open>simp_all add: strip_block_def\<close>)
qed

lemma fold_delete_keys: "fst ` set (fold AList.delete ks b) = fst ` set b - set ks"
  by (induction ks arbitrary: b) (auto simp: AList.delete_keys simp flip: set_map)

lemma fold_delete_id: "fst ` set b \<inter> set ks = {} \<Longrightarrow> fold AList.delete ks b = b"
  by (induction ks arbitrary: b) auto

text \<open>
  C7.  \<open>prepare_for_create\<close> is idempotent on a record: when a call returns, the record it
  has normalised in place is a fixed point, and a second call on it returns the same
  content and leaves the record as it is.
\<close>

theorem prepare_for_create_idempotent:
  assumes "prepare_for_create m = Inr (m', c)"
  shows "prepare_for_create m' = Inr (m', c)"
proof -
  let ?b1 = "fold AList.delete remove_keys (m_body m)"
  from assms have safe: "pathsafe (m_name m)"
    by (auto simp: prepare_for_create_def split: if_splits)
  obtain b2 e2 where s1: "strip_block ''document_level_trigger'' ?b1 = (b2, e2)"
    by (cases "strip_block ''document_level_trigger'' ?b1")
  obtain b3 e3 where s2: "strip_block ''query_level_trigger'' b2 = (b3, e3)"
    by (cases "strip_block ''query_level_trigger'' b2")
  from assms safe s1 have k2: "except_KeyError e2 = None"
    by (auto simp: prepare_for_create_def Let_def split: option.splits)
  from assms safe s1 s2 k2 have k3: "except_KeyError e3 = None"
    by (auto simp: prepare_for_create_def Let_def split: option.splits)
  from assms safe s1 s2 k2 k3 have m': "m' = m\<lparr>m_body := b3\<rparr>" and c: "c = (m_name m, b3)"
    by (auto simp: prepare_for_create_def Let_def)
  have "settled ''document_level_trigger'' b2" using s1 k2 by (rule strip_settled)
  then have d3: "settled ''document_level_trigger'' b3"
    by (rule settled_other[OF _ _ s2]) simp
  have q3: "settled ''query_level_trigger'' b3" using s2 k3 by (rule strip_settled)
  have "fst ` set b3 = fst ` set ?b1"
    using strip_block_keys[OF s1] strip_block_keys[OF s2] by simp
  then have "fst ` set b3 \<inter> set remove_keys = {}" by (auto simp: fold_delete_keys)
  then have f: "fold AList.delete remove_keys b3 = b3" by (rule fold_delete_id)
  from settled_strip[OF d3] obtain e
    where a: "strip_block ''document_level_trigger'' b3 = (b3, e)"
      and ae: "except_KeyError e = None" by blast
  from settled_strip[OF q3] obtain e'
    where b: "strip_block ''query_level_trigger'' b3 = (b3, e')"
      and be: "except_KeyError e' = None" by blast
  show ?thesis
    using safe f a ae b be by (simp add: prepare_for_create_def m' c)
qed

theorem prepare_for_create_idempotent_witness:
  "prepare_for_create alert_a = Inr (alert_a_prepared, content_of alert_a_prepared) \<and>
   prepare_for_create alert_a_prepared = Inr (alert_a_prepared, content_of alert_a_prepared)"
proof -
  have h: "prepare_for_create alert_a = Inr (alert_a_prepared, content_of alert_a_prepared)"
    by (simp add: prepare_for_create_def alert_a_def alert_a_prepared_def content_of_def
          pathsafe_def unsafe_chars_def remove_keys_def strip_block_def except_KeyError_def)
  from h prepare_for_create_idempotent[OF h] show ?thesis by simp
qed

section \<open>Steps that send nothing to change the server\<close>

lemma calm_refl [simp]: "calm s s"
  by (simp add: calm_def extends_def)

lemma calm_trans: "calm s s' \<Longrightarrow> calm s' s'' \<Longrightarrow> calm s s''"
  by (auto simp: calm_def extends_def)

lemma calm_upd_right [simp]:
  "calm s (x\<lparr>disk := a\<rparr>) = calm s x"
  "calm s (x\<lparr>stdin := b\<rparr>) = calm s x"
  "calm s (x\<lparr>draws := c\<rparr>) = calm s x"
  "calm s (x\<lparr>local_monitors := d\<rparr>) = calm s x"
  "calm s (x\<lparr>local_cleanup := e\<rparr>) = calm s x"
  "calm s (x\<lparr>remote_monitors := f\<rparr>) = calm s x"
  "calm s (x\<lparr>confirm_all := g\<rparr>) = calm s x"
  "calm s (x\<lparr>local_confirm_all := h\<rparr>) = calm s x"
  "calm s (x\<lparr>version_sync_mismatch := i\<rparr>) = calm s x"
  "calm s (x\<lparr>monitor_diff := j\<rparr>) = calm s x"
  by (simp_all add: calm_def extends_def)

lemma calm_upd_left [simp]:
  "calm (x\<lparr>disk := a\<rparr>) s = calm x s"
  "calm (x\<lparr>stdin := b\<rparr>) s = calm x s"
  "calm (x\<lparr>draws := c\<rparr>) s = calm x s"
  "calm (x\<lparr>local_monitors := d\<rparr>) s = calm x s"
  "calm (x\<lparr>local_cleanup := e\<rparr>) s = calm x s"
  "calm (x\<lparr>remote_monitors := f\<rparr>) s = calm x s"
  "calm (x\<lparr>confirm_all := g\<rparr>) s = calm x s"
  "calm (x\<lparr>local_confirm_all := h\<rparr>) s = calm x s"
  "calm (x\<lparr>version_sync_mismatch := i\<rparr>) s = calm x s"
  "calm (x\<lparr>monitor_diff := j\<rparr>) s = calm x s"
  by (simp_all add: calm_def extends_def)

lemma calm_log_right: "\<not> remote_write ev \<Longrightarrow> calm s x \<Longrightarrow> calm s (log ev x)"
  by (auto simp: calm_def extends_def log_def)

lemma calm_and_then:
  assumes "and_then f g s = (r, s'')"
    and "\<And>s r s'. f s = (r, s') \<Longrightarrow> calm s s'"
    and "\<And>a s r s'. g a s = (r, s') \<Longrightarrow> calm s s'"
  shows "calm s s''"
proof (cases "f s")
  case (Pair x s')
  then have c: "calm s s'" by (rule assms(2))
  show ?thesis
  proof (cases x)
    case (Inl e)
    with Pair assms(1) c show ?thesis by (simp add: and_then_def)
  next
    case (Inr a)
    with Pair assms(1) have "g a s' = (r, s'')" by (simp add: and_then_def)
    then have "calm s' s''" by (rule assms(3))
    with c show ?thesis by (rule calm_trans)
  qed
qed

lemma local_confirm_calm: "local_confirm env subj ev s = (r, s') \<Longrightarrow> calm s s'"
  by (auto simp: local_confirm_def calm_log_right split: prod.splits sum.splits)

lemma confirm_calm: "confirm env subj ev s = (r, s') \<Longrightarrow> calm s s'"
  by (auto simp: confirm_def calm_log_right split: prod.splits sum.splits)

lemma store_monitor_calm: "store_monitor env i m md s = (r, s') \<Longrightarrow> calm s s'"
  by (auto simp: store_monitor_def Let_def calm_log_right split: if_splits sum.splits)

lemma remove_monitor_calm: "remove_monitor env n s = (r, s') \<Longrightarrow> calm s s'"
  by (auto simp: remove_monitor_def Let_def calm_log_right
        split: if_splits prod.splits option.splits)

lemma load_dirs_calm: "load_dirs env dirs all s = (r, s') \<Longrightarrow> calm s s'"
proof (induction dirs arbitrary: all s r s')
  case Nil
  then show ?case by simp
next
  case (Cons monitor_dir rest)
  show ?case
    using Cons.prems
    by (auto simp: Let_def
          split: option.splits entry.splits json_file.splits if_splits prod.splits sum.splits
          dest!: remove_monitor_calm Cons.IH
          intro: calm_trans)
qed

lemma load_monitors_calm: "load_monitors env s = (r, s') \<Longrightarrow> calm s s'"
  by (auto simp: load_monitors_def split: prod.splits sum.splits dest!: load_dirs_calm)

lemma remote_load_monitors_calm: "remote_load_monitors env s = (r, s') \<Longrightarrow> calm s s'"
  by (auto simp: remote_load_monitors_def Let_def calm_log_right
        split: prod.splits sum.splits option.splits)

lemma get_notification_channels_calm:
  "get_notification_channels env s = (r, s') \<Longrightarrow> calm s s'"
  by (auto simp: get_notification_channels_def split: option.splits)

lemma move_dir_calm: "move_dir env monitor_dir d m s = (r, s') \<Longrightarrow> calm s s'"
  by (auto simp: move_dir_def Let_def split: json_file.splits if_splits option.splits
        dest!: store_monitor_calm)

lemma clean_dirs_calm: "clean_dirs env dirs s = (r, s') \<Longrightarrow> calm s s'"
proof (induction dirs arbitrary: s r s')
  case Nil
  then show ?case by simp
next
  case (Cons monitor_dir rest)
  show ?case
    using Cons.prems
    by (auto simp: Let_def
          split: option.splits entry.splits json_file.splits if_splits prod.splits sum.splits
          dest!: local_confirm_calm move_dir_calm Cons.IH
          intro: calm_trans)
qed

lemma clean_folders_calm: "clean_folders env s = (r, s') \<Longrightarrow> calm s s'"
  by (auto simp: clean_folders_def split: if_splits dest!: clean_dirs_calm)

lemma load_and_clean_calm: "load_and_clean env s = (r, s') \<Longrightarrow> calm s s'"
  unfolding load_and_clean_def
  by (erule calm_and_then, erule load_monitors_calm,
      erule calm_and_then, erule remote_load_monitors_calm,
      erule calm_and_then, erule get_notification_channels_calm,
      erule calm_and_then, erule clean_folders_calm)
     (auto split: if_splits dest: load_monitors_calm)


text \<open>
  C1 (as amended).  When the check of the remote names fails, the pass ends there with
  that error, in the state that loading and cleaning left: none of the four
  reconciliation stages runs.  Up to that point the server has not changed and no
  create or update call was made.  The loading of both stores (with the removals of its
  de-duplication and its remote reads) and the folder clean-up (with its moves) come
  before the check.
\<close>

theorem name_check_aborts_before_reconciling:
  assumes "load_and_clean env s = (Inr (), s1)"
    and "integrity_check [] (remote_monitors s1) = Some e"
  shows "sync_pass env s = (Inl e, s1) \<and> server s1 = server s \<and>
         (\<exists>t. trace s1 = trace s @ t \<and> list_all (\<lambda>ev. \<not> remote_write ev) t)"
proof -
  from assms have "sync_pass env s = (Inl e, s1)"
    by (simp add: sync_pass_def and_then_def check_remote_names_def)
  moreover from assms(1) have "calm s s1" by (rule load_and_clean_calm)
  ultimately show ?thesis by (simp add: calm_def extends_def)
qed

theorem name_check_aborts_before_reconciling_witness:
  "sync_pass (demo_env True False) clash_start =
     (Inl SystemExit, snd (load_and_clean (demo_env True False) clash_start)) \<and>
   server (snd (load_and_clean (demo_env True False) clash_start)) = server clash_start"
proof -
  let ?s1 = "snd (load_and_clean (demo_env True False) clash_start)"
  have "fst (load_and_clean (demo_env True False) clash_start) = Inr ()"
    by code_simp
  then have a: "load_and_clean (demo_env True False) clash_start = (Inr (), ?s1)"
    by (simp add: prod_eq_iff)
  have b: "integrity_check [] (remote_monitors ?s1) = Some SystemExit"
    by code_simp
  from name_check_aborts_before_reconciling[OF a b] show ?thesis by simp
qed

text \<open>
  C1 as stated fails: with two remote monitors of one name and a local folder whose name
  differs from its monitor's, the run searches the server, moves the folder and only
  then aborts on the duplicate name.
\<close>

theorem move_precedes_abort:
  "fst (sync_pass (demo_env True False) clash_start) = Inl SystemExit \<and>
   integrity_check []
     (remote_monitors (snd (load_and_clean (demo_env True False) clash_start))) =
     Some SystemExit \<and>
   disk clash_start = [(''old'', holding (plain_monitor ''M7'' 1 ''new''))] \<and>
   disk (snd (sync_pass (demo_env True False) clash_start)) =
     [(''new'', holding (plain_monitor ''M7'' 1 ''new''))] \<and>
   trace (snd (sync_pass (demo_env True False) clash_start)) =
     [CallSearch, Confirm ''old'' ''mismatch'' True, CallStore ''M7'' ''new'']"
  by code_simp

section \<open>Confirmation before creation\<close>

lemma gated_back_skip: "\<not> creates ev \<Longrightarrow> gated_back (ev # earlier) = gated_back earlier"
  by (cases ev) simp_all

lemma gated_append: "gated tr \<Longrightarrow> list_all (\<lambda>ev. \<not> creates ev) t \<Longrightarrow> gated (tr @ t)"
  by (induction t rule: rev_induct) (simp_all add: gated_def gated_back_skip)

lemma gated_create: "gated tr \<Longrightarrow> gated (tr @ [Confirm i ''general'' True, CallCreate i])"
  by (simp add: gated_def)

lemma extends_gated:
  "extends (\<lambda>ev. \<not> creates ev) s s' \<Longrightarrow> gated (trace s) \<Longrightarrow> gated (trace s')"
  by (auto simp: extends_def gated_append)

lemma not_write_not_create: "\<not> remote_write ev \<Longrightarrow> \<not> creates ev"
  by (cases ev) simp_all

lemma calm_gated: "calm s s' \<Longrightarrow> gated (trace s) \<Longrightarrow> gated (trace s')"
  by (auto simp: calm_def extends_def list_all_iff not_write_not_create intro!: gated_append)

lemma gated_and_then:
  assumes "and_then f g s = (r, s'')" and "gated (trace s)"
    and "\<And>s r s'. f s = (r, s') \<Longrightarrow> gated (trace s) \<Longrightarrow> gated (trace s')"
    and "\<And>a s r s'. g a s = (r, s') \<Longrightarrow> gated (trace s) \<Longrightarrow> gated (trace s')"
  shows "gated (trace s'')"
proof (cases "f s")
  case (Pair x s')
  then have c: "gated (trace s')" using assms(2) by (rule assms(3))
  show ?thesis
  proof (cases x)
    case (Inl e)
    with Pair assms(1) c show ?thesis by (simp add: and_then_def)
  next
    case (Inr a)
    with Pair assms(1) have "g a s' = (r, s'')" by (simp add: and_then_def)
    then show ?thesis using c by (rule assms(4))
  qed
qed

lemma gated_suffix: "gated_back (xs @ ys) \<Longrightarrow> gated_back ys"
proof (induction xs)
  case Nil
  then show ?case by simp
next
  case (Cons ev xs)
  then show ?case
    by (cases ev) (auto split: list.splits event.splits)
qed

lemma gated_back_create:
  "gated_back (CallCreate i # earlier) \<Longrightarrow> \<exists>evs. earlier = Confirm i ''general'' True # evs"
proof (cases earlier)
  case Nil
  assume "gated_back (CallCreate i # earlier)"
  with Nil show ?thesis by simp
next
  case (Cons ev evs)
  assume g: "gated_back (CallCreate i # earlier)"
  show ?thesis
  proof (cases ev)
    case (Confirm j k b)
    with g Cons show ?thesis by simp
  qed (use g Cons in simp_all)
qed

lemma gated_create_preceded:
  assumes "gated (pre @ CallCreate i # post)"
  shows "\<exists>pre'. pre = pre' @ [Confirm i ''general'' True]"
proof -
  have "rev (pre @ CallCreate i # post) = rev post @ CallCreate i # rev pre"
    by simp
  with assms have "gated_back (rev post @ CallCreate i # rev pre)"
    by (simp only: gated_def)
  then have "gated_back (CallCreate i # rev pre)" by (rule gated_suffix)
  then have "\<exists>evs. rev pre = Confirm i ''general'' True # evs"
    by (rule gated_back_create)
  then obtain evs where e: "rev pre = Confirm i ''general'' True # evs" ..
  have "rev (rev pre) = rev evs @ [Confirm i ''general'' True]"
    unfolding e by (rule rev.simps(2))
  then have p: "pre = rev evs @ [Confirm i ''general'' True]"
    unfolding rev_rev_ident .
  show ?thesis by (rule exI[of _ "rev evs"]) (fact p)
qed

lemma confirm_yes_trace:
  "confirm env subj k s = (Inr True, s1) \<Longrightarrow> trace s1 = trace s @ [Confirm subj k True]"
  by (auto simp: confirm_def log_def split: prod.splits)

lemma create_and_store_trace:
  "create_and_store env subj c s = (r, s') \<Longrightarrow>
     \<exists>t. trace s' = trace s @ CallCreate subj # t \<and> list_all (\<lambda>ev. \<not> creates ev) t"
  by (auto simp: create_and_store_def Let_def and_then_def log_def store_monitor_def
        split: if_splits option.splits prod.splits sum.splits)

lemma adopt_loop_calm: "adopt_loop env items s = (r, s') \<Longrightarrow> calm s s'"
proof (induction items arbitrary: s r s')
  case Nil
  then show ?case by simp
next
  case (Cons a rest)
  show ?case
    using Cons.prems
    by (cases a)
       (auto split: if_splits prod.splits sum.splits
          dest!: store_monitor_calm Cons.IH intro: calm_trans)
qed

lemma offer_loop_gated:
  "offer_loop env items cn sk s = (r, s') \<Longrightarrow> gated (trace s) \<Longrightarrow> gated (trace s')"
proof (induction items arbitrary: cn sk s r s')
  case Nil
  then show ?case by simp
next
  case (Cons a rest)
  obtain i m where a: "a = (i, m)" by (cases a)
  show ?case
  proof (cases "map_of (remote_monitors s) i \<noteq> None")
    case True
    with Cons.prems a show ?thesis by (auto dest: Cons.IH)
  next
    case False
    obtain x s1 where c: "confirm env i ''general'' s = (x, s1)"
      by (cases "confirm env i ''general'' s")
    then have g1: "gated (trace s1)"
      using Cons.prems(2) by (auto dest!: confirm_calm intro: calm_gated)
    show ?thesis
    proof (cases x)
      case (Inl e)
      with Cons.prems(1) a False c g1 show ?thesis by simp
    next
      case (Inr b)
      show ?thesis
      proof (cases b)
        case False
        with Cons.prems(1) a \<open>\<not> map_of (remote_monitors s) i \<noteq> None\<close> c Inr g1
        show ?thesis by (auto dest: Cons.IH)
      next
        case True
        with c Inr have t1: "trace s1 = trace s @ [Confirm i ''general'' True]"
          by (simp add: confirm_yes_trace)
        show ?thesis
        proof (cases "prepare_for_create m")
          case (Inl e)
          with Cons.prems(1) a \<open>\<not> map_of (remote_monitors s) i \<noteq> None\<close> c Inr True g1
          show ?thesis by simp
        next
          case pr: (Inr mc)
          obtain m' cnt where mc: "mc = (m', cnt)" by (cases mc)
          let ?s1 = "s1\<lparr>local_monitors := AList.update i m' (local_monitors s1)\<rparr>"
          obtain y s2 where cs: "create_and_store env i cnt ?s1 = (y, s2)"
            by (cases "create_and_store env i cnt ?s1")
          from create_and_store_trace[OF cs] obtain t
            where t2: "trace s2 = trace ?s1 @ CallCreate i # t"
              and q: "list_all (\<lambda>ev. \<not> creates ev) t" by blast
          have "gated (trace s @ [Confirm i ''general'' True, CallCreate i])"
            using Cons.prems(2) by (rule gated_create)
          then have "gated ((trace s @ [Confirm i ''general'' True, CallCreate i]) @ t)"
            using q by (rule gated_append)
          with t1 t2 have g2: "gated (trace s2)" by simp
          show ?thesis
          proof (cases y)
            case (Inl e)
            with Cons.prems(1) a \<open>\<not> map_of (remote_monitors s) i \<noteq> None\<close> c Inr True pr mc cs g2
            show ?thesis by simp
          next
            case yr: (Inr u)
            with Cons.prems(1) a \<open>\<not> map_of (remote_monitors s) i \<noteq> None\<close> c Inr True pr mc cs
            have "offer_loop env rest True sk s2 = (r, s')" by simp
            then show ?thesis using g2 by (rule Cons.IH)
          qed
        qed
      qed
    qed
  qed
qed

lemma offer_local_only_gated:
  "offer_local_only env s = (r, s') \<Longrightarrow> gated (trace s) \<Longrightarrow> gated (trace s')"
  by (auto simp: offer_local_only_def split: prod.splits sum.splits dest: offer_loop_gated)

lemma reload_if_calm: "reload_if env b s = (r, s') \<Longrightarrow> calm s s'"
proof (cases b)
  case True
  assume "reload_if env b s = (r, s')"
  with True have "and_then (load_monitors env) (\<lambda>u. remote_load_monitors env) s = (r, s')"
    by (simp add: reload_if_def)
  then show ?thesis
    by (rule calm_and_then) (erule load_monitors_calm, erule remote_load_monitors_calm)
next
  case False
  assume "reload_if env b s = (r, s')"
  with False show ?thesis by (simp add: reload_if_def)
qed

lemma pull_loop_calm: "pull_loop env vsm s = (r, s') \<Longrightarrow> calm s s'"
proof (induction vsm arbitrary: s r s')
  case Nil
  then show ?case by simp
next
  case (Cons a rest)
  show ?case
    using Cons.prems
    by (cases a)
       (auto split: if_splits prod.splits sum.splits option.splits
          dest!: store_monitor_calm confirm_calm Cons.IH intro: calm_trans)
qed

lemma reconcile_versions_calm:
  assumes "reconcile_versions env s = (r, s')"
  shows "calm s s'"
proof (cases "check_version_state (version_sync_mismatch s) (local_monitors s) (remote_monitors s)")
  case (Inl e)
  with assms show ?thesis by (simp add: reconcile_versions_def)
next
  case (Inr vsm)
  show ?thesis
  proof (cases "vsm = []")
    case True
    with assms Inr show ?thesis by (auto simp: reconcile_versions_def)
  next
    case False
    let ?s = "s\<lparr>version_sync_mismatch := vsm\<rparr>"
    from assms Inr False
    have "and_then (pull_loop env vsm)
            (\<lambda>u. and_then (load_monitors env) (\<lambda>u. clean_folders env)) ?s = (r, s')"
      by (simp add: reconcile_versions_def)
    then have "calm ?s s'"
    proof (rule calm_and_then)
      show "pull_loop env vsm s = (r, s') \<Longrightarrow> calm s s'" for s :: "'a state" and r s'
        by (rule pull_loop_calm)
      show "and_then (load_monitors env) (\<lambda>u. clean_folders env) s = (r, s') \<Longrightarrow> calm s s'"
        for s :: "'a state" and r s'
        by (erule calm_and_then) (erule load_monitors_calm, erule clean_folders_calm)
    qed
    then show ?thesis by simp
  qed
qed


lemma update_and_store_quiet:
  "update_and_store env i m s = (r, s') \<Longrightarrow> extends (\<lambda>ev. \<not> creates ev) s s'"
  by (auto simp: update_and_store_def store_monitor_def Let_def log_def extends_def
        split: if_splits sum.splits prod.splits option.splits)

lemma update_and_store_gated:
  "update_and_store env i m s = (r, s') \<Longrightarrow> gated (trace s) \<Longrightarrow> gated (trace s')"
  by (drule update_and_store_quiet) (rule extends_gated)

lemma push_loop_gated:
  "push_loop env md s = (r, s') \<Longrightarrow> gated (trace s) \<Longrightarrow> gated (trace s')"
proof (induction md arbitrary: s r s')
  case Nil
  then show ?case by simp
next
  case (Cons a rest)
  obtain i d where a: "a = (i, d)" by (cases a)
  show ?case
  proof (cases "map_of (local_monitors s) i")
    case None
    with Cons.prems a show ?thesis by simp
  next
    case (Some l)
    obtain x s1 where c: "confirm env i ''monitor_update'' s = (x, s1)"
      by (cases "confirm env i ''monitor_update'' s")
    then have g1: "gated (trace s1)"
      using Cons.prems(2) by (auto dest!: confirm_calm intro: calm_gated)
    show ?thesis
    proof (cases x)
      case (Inl e)
      with Cons.prems(1) a Some c g1 show ?thesis by simp
    next
      case (Inr b)
      show ?thesis
      proof (cases b)
        case False
        with Cons.prems(1) a Some c Inr have "push_loop env rest s1 = (r, s')" by simp
        then show ?thesis using g1 by (rule Cons.IH)
      next
        case True
        obtain y s2 where u: "update_and_store env i l s1 = (y, s2)"
          by (cases "update_and_store env i l s1")
        then have g2: "gated (trace s2)" using g1 by (rule update_and_store_gated)
        show ?thesis
        proof (cases y)
          case (Inl e)
          with Cons.prems(1) a Some c Inr True u g2 show ?thesis by simp
        next
          case yr: (Inr v)
          with Cons.prems(1) a Some c Inr True u have "push_loop env rest s2 = (r, s')" by simp
          then show ?thesis using g2 by (rule Cons.IH)
        qed
      qed
    qed
  qed
qed

lemma reconcile_content_gated:
  assumes "reconcile_content env s = (r, s')" and "gated (trace s)"
  shows "gated (trace s')"
proof (cases "compare_monitors (deepdiff env) (monitor_diff s) (local_monitors s)
               (remote_monitors s)")
  case (Inl e)
  with assms show ?thesis by (simp add: reconcile_content_def)
next
  case (Inr md)
  show ?thesis
  proof (cases "md = []")
    case True
    with assms Inr show ?thesis by (auto simp: reconcile_content_def)
  next
    case False
    with assms(1) Inr have "push_loop env md (s\<lparr>monitor_diff := md\<rparr>) = (r, s')"
      by (simp add: reconcile_content_def)
    then show ?thesis using assms(2) by (auto dest: push_loop_gated)
  qed
qed

lemma reconcile_gated:
  assumes "reconcile env s = (r, s')" and "gated (trace s)"
  shows "gated (trace s')"
  using assms unfolding reconcile_def
proof (rule gated_and_then)
  show "adopt_remote_only env s = (r, s') \<Longrightarrow> gated (trace s) \<Longrightarrow> gated (trace s')"
    for s :: "'a state" and r s'
    unfolding adopt_remote_only_def by (drule adopt_loop_calm) (rule calm_gated)
next
  fix u :: unit and s :: "'a state" and r s'
  assume "and_then (offer_local_only env)
            (\<lambda>created_new. and_then (reload_if env created_new)
               (\<lambda>u. and_then (reconcile_versions env) (\<lambda>u. reconcile_content env))) s = (r, s')"
    and "gated (trace s)"
  then show "gated (trace s')"
  proof (rule gated_and_then)
    show "offer_local_only env s = (r, s') \<Longrightarrow> gated (trace s) \<Longrightarrow> gated (trace s')"
      for s :: "'a state" and r s'
      by (rule offer_local_only_gated)
  next
    fix created_new and s :: "'a state" and r s'
    assume "and_then (reload_if env created_new)
              (\<lambda>u. and_then (reconcile_versions env) (\<lambda>u. reconcile_content env)) s = (r, s')"
      and "gated (trace s)"
    then show "gated (trace s')"
    proof (rule gated_and_then)
      show "reload_if env created_new s = (r, s') \<Longrightarrow> gated (trace s) \<Longrightarrow> gated (trace s')"
        for s :: "'a state" and r s'
        by (drule reload_if_calm) (rule calm_gated)
    next
      fix u :: unit and s :: "'a state" and r s'
      assume "and_then (reconcile_versions env) (\<lambda>u. reconcile_content env) s = (r, s')"
        and "gated (trace s)"
      then show "gated (trace s')"
      proof (rule gated_and_then)
        show "reconcile_versions env s = (r, s') \<Longrightarrow> gated (trace s) \<Longrightarrow> gated (trace s')"
          for s :: "'a state" and r s'
          by (drule reconcile_versions_calm) (rule calm_gated)
        show "reconcile_content env s = (r, s') \<Longrightarrow> gated (trace s) \<Longrightarrow> gated (trace s')"
          for s :: "'a state" and r s'
          by (rule reconcile_content_gated)
      qed
    qed
  qed
qed

lemma check_remote_names_same: "check_remote_names s = (r, s') \<Longrightarrow> s' = s"
  by (auto simp: check_remote_names_def split: option.splits)

lemma sync_pass_gated:
  assumes "sync_pass env s = (r, s')" and "gated (trace s)"
  shows "gated (trace s')"
  using assms unfolding sync_pass_def
proof (rule gated_and_then)
  show "load_and_clean env s = (r, s') \<Longrightarrow> gated (trace s) \<Longrightarrow> gated (trace s')"
    for s :: "'a state" and r s'
    by (drule load_and_clean_calm) (rule calm_gated)
next
  fix u :: unit and s :: "'a state" and r s'
  assume "and_then check_remote_names (\<lambda>u. reconcile env) s = (r, s')" and "gated (trace s)"
  then show "gated (trace s')"
  proof (rule gated_and_then)
    show "check_remote_names s = (r, s') \<Longrightarrow> gated (trace s) \<Longrightarrow> gated (trace s')"
      for s :: "'a state" and r s'
      by (drule check_remote_names_same) simp
    show "reconcile env s = (r, s') \<Longrightarrow> gated (trace s) \<Longrightarrow> gated (trace s')"
      for s :: "'a state" and r s'
      by (rule reconcile_gated)
  qed
qed

lemma store_monitor_silent:
  "store_monitor env i m md s = (r, s') \<Longrightarrow>
     stdin s' = stdin s \<and> confirm_all s' = confirm_all s \<and> local_monitors s' = local_monitors s \<and>
     trace s' = trace s @ [CallStore i (m_name m)]"
  by (auto simp: store_monitor_def Let_def log_def split: if_splits sum.splits)

lemma adopt_loop_silent:
  "adopt_loop env items s = (r, s') \<Longrightarrow>
     stdin s' = stdin s \<and> confirm_all s' = confirm_all s \<and> extends is_store s s'"
proof (induction items arbitrary: s r s')
  case Nil
  then show ?case by (simp add: extends_def)
next
  case (Cons a rest)
  obtain i m where a: "a = (i, m)" by (cases a)
  show ?case
  proof (cases "map_of (local_monitors s) i \<noteq> None")
    case True
    with Cons.prems a show ?thesis by (auto dest: Cons.IH)
  next
    case False
    obtain x s1 where st: "store_monitor env i m [] s = (x, s1)"
      by (cases "store_monitor env i m [] s")
    note f = store_monitor_silent[OF st]
    show ?thesis
    proof (cases x)
      case (Inl e)
      with Cons.prems a False st f show ?thesis by (simp add: extends_def)
    next
      case (Inr u)
      let ?s1 = "s1\<lparr>local_monitors := AList.update i m (local_monitors s1)\<rparr>"
      from Cons.prems a False st Inr have "adopt_loop env rest ?s1 = (r, s')" by simp
      from Cons.IH[OF this] f show ?thesis by (auto simp: extends_def)
    qed
  qed
qed

text \<open>
  C5.  Storing the remote-only monitors reads no input, leaves the confirmation latches
  as they are and adds nothing to the trace but its \<open>store_monitor\<close> calls; and in the
  trace of a sync pass every call of \<open>create_monitor\<close> directly follows a confirmation
  for the same local monitor that returned \<open>True\<close>.
\<close>

theorem creation_is_gated:
  "(adopt_remote_only env s = (r, s') \<longrightarrow>
      stdin s' = stdin s \<and> confirm_all s' = confirm_all s \<and>
      (\<exists>t. trace s' = trace s @ t \<and> list_all is_store t)) \<and>
   (sync_pass env (start tree0 srv0 inp) = (r0, s0') \<and>
    trace s0' = pre @ CallCreate i # post \<longrightarrow>
      (\<exists>pre'. pre = pre' @ [Confirm i ''general'' True]))"
proof (intro conjI impI)
  assume "adopt_remote_only env s = (r, s')"
  then have a: "stdin s' = stdin s \<and> confirm_all s' = confirm_all s \<and> extends is_store s s'"
    unfolding adopt_remote_only_def by (rule adopt_loop_silent)
  from a show "stdin s' = stdin s" by simp
  from a show "confirm_all s' = confirm_all s" by simp
  from a show "\<exists>t. trace s' = trace s @ t \<and> list_all is_store t" by (simp add: extends_def)
next
  assume h: "sync_pass env (start tree0 srv0 inp) = (r0, s0') \<and>
             trace s0' = pre @ CallCreate i # post"
  have "gated (trace (start tree0 srv0 inp))" by (simp add: start_def gated_def)
  with h have "gated (trace s0')" by (auto dest: sync_pass_gated)
  with h have "gated (pre @ CallCreate i # post)" by simp
  then show "\<exists>pre'. pre = pre' @ [Confirm i ''general'' True]"
    by (rule gated_create_preceded)
qed

theorem creation_is_gated_witness:
  "trace (snd (sync_pass (demo_env False False) accept_start)) =
     [CallSearch, Confirm ''createqwertyuiop'' ''general'' True] @
     CallCreate ''createqwertyuiop'' # [CallStore ''srv-M2'' ''M2'', CallSearch] \<and>
   (\<exists>pre'. [CallSearch, Confirm ''createqwertyuiop'' ''general'' True] =
             pre' @ [Confirm ''createqwertyuiop'' ''general'' True]) \<and>
   stdin (snd (adopt_remote_only (demo_env False False) accept_start)) = stdin accept_start"
proof -
  let ?E = "demo_env False False"
  let ?pre = "[CallSearch, Confirm ''createqwertyuiop'' ''general'' True]"
  let ?post = "[CallStore ''srv-M2'' ''M2'', CallSearch]"
  have st: "accept_start = start [(''M2'', holding (plain_monitor [] 1 ''M2''))] [] [''yes'']"
    by (simp add: accept_start_def)
  have tr: "trace (snd (sync_pass ?E accept_start)) =
              ?pre @ CallCreate ''createqwertyuiop'' # ?post"
    by code_simp
  have run: "sync_pass ?E (start [(''M2'', holding (plain_monitor [] 1 ''M2''))] [] [''yes'']) =
               (fst (sync_pass ?E accept_start), snd (sync_pass ?E accept_start))"
    by (simp add: st)
  have ad: "adopt_remote_only ?E accept_start =
              (fst (adopt_remote_only ?E accept_start), snd (adopt_remote_only ?E accept_start))"
    by simp
  note g = creation_is_gated[of ?E accept_start "fst (adopt_remote_only ?E accept_start)"
      "snd (adopt_remote_only ?E accept_start)"
      "[(''M2'', holding (plain_monitor [] 1 ''M2''))]" "[]" "[''yes'']"
      "fst (sync_pass ?E accept_start)" "snd (sync_pass ?E accept_start)"
      ?pre "''createqwertyuiop''" ?post]
  from g ad have a: "stdin (snd (adopt_remote_only ?E accept_start)) = stdin accept_start"
    by blast
  from g run tr
  have b: "\<exists>pre'. ?pre = pre' @ [Confirm ''createqwertyuiop'' ''general'' True]"
    by blast
  from tr a b show ?thesis by blast
qed

section \<open>Order of processing\<close>

lemma confirm_trace:
  "confirm env subj k s = (Inr b, s1) \<Longrightarrow> trace s1 = trace s @ [Confirm subj k b]"
  by (auto simp: confirm_def log_def split: prod.splits)

lemma confirm_keeps:
  "confirm env subj k s = (r, s1) \<Longrightarrow>
     disk s1 = disk s \<and> server s1 = server s \<and> local_monitors s1 = local_monitors s \<and>
     remote_monitors s1 = remote_monitors s"
  by (auto simp: confirm_def log_def split: prod.splits sum.splits)


lemma declined_append: "declined (a @ b) = declined a @ declined b"
  by (induction a rule: declined.induct) simp_all





lemma updated_append: "updated (a @ b) = updated a @ updated b"
  by (induction a rule: updated.induct) simp_all

lemma stored_append: "stored (a @ b) = stored a @ stored b"
  by (induction a rule: stored.induct) simp_all













section \<open>Declined offers\<close>

lemma write_monitor_keys:
  assumes "write_monitor t m md = Inr t'"
  shows "keys t \<subseteq> keys t'"
proof (cases "map_of t (m_name m)")
  case None
  with assms show ?thesis
    by (auto simp: write_monitor_def keys_def split: if_splits)
next
  case (Some en)
  show ?thesis
  proof (cases en)
    case File
    with assms Some show ?thesis by (simp add: write_monitor_def split: if_splits)
  next
    case (Dir d)
    with assms Some obtain d' where "t' = AList.update (m_name m) (Dir d') t"
      by (auto simp: write_monitor_def split: if_splits)
    with Some show ?thesis by (simp add: keys_def update_present_keys)
  qed
qed

lemma store_monitor_keys:
  assumes "store_monitor env i m md s = (r, s')"
  shows "keys (disk s) \<subseteq> keys (disk s')"
proof (cases "arg_dryrun env")
  case True
  with assms show ?thesis by (auto simp: store_monitor_def Let_def log_def)
next
  case False
  show ?thesis
  proof (cases "write_monitor (disk s) m md")
    case (Inl e)
    with assms False show ?thesis by (auto simp: store_monitor_def Let_def log_def)
  next
    case (Inr t)
    then have "keys (disk s) \<subseteq> keys t" by (rule write_monitor_keys)
    with assms False Inr show ?thesis by (auto simp: store_monitor_def Let_def log_def)
  qed
qed

lemma create_and_store_effect:
  assumes "create_and_store env subj c s = (r, s')"
  shows "keys (disk s) \<subseteq> keys (disk s') \<and> (\<exists>t. trace s' = trace s @ t \<and> declined t = [])"
proof (cases "arg_dryrun env")
  case True
  with assms have "disk s' = disk s" and "trace s' = trace s @ [CallCreate subj]"
    by (auto simp: create_and_store_def Let_def log_def split: option.splits)
  then have "trace s' = trace s @ [CallCreate subj] \<and> declined [CallCreate subj] = []"
    by simp
  then have "\<exists>t. trace s' = trace s @ t \<and> declined t = []"
    by (rule exI[of _ "[CallCreate subj]"])
  with \<open>disk s' = disk s\<close> show ?thesis by simp
next
  case False
  let ?s1 = "log (CallCreate subj) s"
  obtain x srv where sc: "srv_create env (server ?s1) c = (x, srv)"
    by (cases "srv_create env (server ?s1) c")
  let ?s2 = "?s1\<lparr>server := srv\<rparr>"
  have base: "disk ?s2 = disk s" "trace ?s2 = trace s @ [CallCreate subj]"
    by (simp_all add: log_def)
  have stop: "disk s' = disk s \<and> trace s' = trace s @ [CallCreate subj] \<Longrightarrow> ?thesis"
  proof -
    assume h: "disk s' = disk s \<and> trace s' = trace s @ [CallCreate subj]"
    then have "trace s' = trace s @ [CallCreate subj] \<and> declined [CallCreate subj] = []"
      by simp
    then have "\<exists>t. trace s' = trace s @ t \<and> declined t = []"
      by (rule exI[of _ "[CallCreate subj]"])
    with h show ?thesis by simp
  qed
  show ?thesis
  proof (cases x)
    case (Inl e)
    with assms False sc have "s' = ?s2"
      by (simp add: create_and_store_def Let_def)
    with base show ?thesis by (intro stop) simp
  next
    case (Inr created)
    show ?thesis
    proof (cases "m_id (zero_update_time created)")
      case None
      with assms False sc Inr have "s' = ?s2"
        by (simp add: create_and_store_def Let_def)
      with base show ?thesis by (intro stop) simp
    next
      case (Some new_id)
      obtain y s3 where st: "store_monitor env new_id (zero_update_time created) [] ?s2 = (y, s3)"
        by (cases "store_monitor env new_id (zero_update_time created) [] ?s2")
      from assms False sc Inr Some st have "s' = s3"
        by (cases y) (auto simp: create_and_store_def Let_def and_then_def split: if_splits)
      with store_monitor_keys[OF st] store_monitor_silent[OF st] base
      have k: "keys (disk s) \<subseteq> keys (disk s')"
        and tr: "trace s' =
                   trace s @ [CallCreate subj, CallStore new_id (m_name (zero_update_time created))]"
        by simp_all
      from tr have "trace s' =
          trace s @ [CallCreate subj, CallStore new_id (m_name (zero_update_time created))] \<and>
          declined [CallCreate subj, CallStore new_id (m_name (zero_update_time created))] = []"
        by simp
      then have "\<exists>t. trace s' = trace s @ t \<and> declined t = []"
        by (rule exI[of _ "[CallCreate subj, CallStore new_id (m_name (zero_update_time created))]"])
      with k show ?thesis by simp
    qed
  qed
qed

lemma offer_loop_created:
  "offer_loop env items True sk s = (Inr (cn', sk'), s') \<Longrightarrow> cn'"
proof (induction items arbitrary: sk s)
  case Nil
  then show ?case by simp
next
  case (Cons a rest)
  show ?case
    using Cons.prems
    by (cases a)
       (auto split: if_splits prod.splits sum.splits bool.splits dest: Cons.IH)
qed

lemma offer_loop_effect:
  "offer_loop env items cn sk s = (Inr (cn', sk'), s') \<Longrightarrow>
     keys (disk s) \<subseteq> keys (disk s') \<and>
     (\<exists>t. trace s' = trace s @ t \<and> sk' = sk @ declined t) \<and>
     (\<not> cn' \<longrightarrow> disk s' = disk s \<and> server s' = server s \<and>
        local_monitors s' = local_monitors s)"
proof (induction items arbitrary: cn sk s)
  case Nil
  then show ?case by simp
next
  case (Cons a rest)
  obtain i m where a: "a = (i, m)" by (cases a)
  show ?case
  proof (cases "map_of (remote_monitors s) i \<noteq> None")
    case True
    with Cons.prems a have "offer_loop env rest cn sk s = (Inr (cn', sk'), s')" by simp
    then show ?thesis by (rule Cons.IH)
  next
    case False
    obtain x s1 where c: "confirm env i ''general'' s = (x, s1)"
      by (cases "confirm env i ''general'' s")
    with Cons.prems a False obtain b where x: "x = Inr b" by (cases x) simp_all
    from c x have t1: "trace s1 = trace s @ [Confirm i ''general'' b]"
      by (simp add: confirm_trace)
    note k1 = confirm_keeps[OF c]
    show ?thesis
    proof (cases b)
      case nb: False
      with Cons.prems a False c x
      have "offer_loop env rest cn (sk @ [i]) s1 = (Inr (cn', sk'), s')" by simp
      from Cons.IH[OF this] obtain t where ih: "keys (disk s1) \<subseteq> keys (disk s')"
        "trace s' = trace s1 @ t" "sk' = (sk @ [i]) @ declined t"
        "\<not> cn' \<longrightarrow> disk s' = disk s1 \<and> server s' = server s1 \<and>
           local_monitors s' = local_monitors s1"
        by blast
      from ih t1 nb
      have "trace s' = trace s @ (Confirm i ''general'' b # t) \<and>
            sk' = sk @ declined (Confirm i ''general'' b # t)" by simp
      then have "\<exists>t. trace s' = trace s @ t \<and> sk' = sk @ declined t"
        by (rule exI[of _ "Confirm i ''general'' b # t"])
      with ih k1 show ?thesis by simp
    next
      case yb: True
      from Cons.prems a False c x yb obtain m' cnt where pr: "prepare_for_create m = Inr (m', cnt)"
        by (cases "prepare_for_create m") auto
      let ?s1 = "s1\<lparr>local_monitors := AList.update i m' (local_monitors s1)\<rparr>"
      obtain y s2 where cs: "create_and_store env i cnt ?s1 = (y, s2)"
        by (cases "create_and_store env i cnt ?s1")
      from Cons.prems a False c x yb pr cs
      have run: "offer_loop env rest True sk s2 = (Inr (cn', sk'), s')"
        by (cases y) simp_all
      then have cn': "cn'" by (rule offer_loop_created)
      from create_and_store_effect[OF cs] obtain t2
        where e2: "keys (disk ?s1) \<subseteq> keys (disk s2)" "trace s2 = trace ?s1 @ t2"
          "declined t2 = []" by blast
      from Cons.IH[OF run] obtain t where ih: "keys (disk s2) \<subseteq> keys (disk s')"
        "trace s' = trace s2 @ t" "sk' = sk @ declined t" by blast
      from ih e2 t1 yb
      have "trace s' = trace s @ (Confirm i ''general'' b # t2 @ t) \<and>
            sk' = sk @ declined (Confirm i ''general'' b # t2 @ t)"
        by (simp add: declined_append)
      then have "\<exists>t. trace s' = trace s @ t \<and> sk' = sk @ declined t"
        by (rule exI[of _ "Confirm i ''general'' b # t2 @ t"])
      moreover from ih e2 k1 have "keys (disk s) \<subseteq> keys (disk s')" by auto
      ultimately show ?thesis using cn' by simp
    qed
  qed
qed

lemma fold_delete_lookup: "i \<in> set ks \<Longrightarrow> map_of (fold AList.delete ks d) i = None"
proof (induction ks arbitrary: d)
  case Nil
  then show ?case by simp
next
  case (Cons k ks)
  show ?case
  proof (cases "i \<in> set ks")
    case True
    then show ?thesis by (simp add: Cons.IH)
  next
    case False
    with Cons.prems have "i = k" by simp
    moreover have "i \<notin> fst ` set (fold AList.delete ks (AList.delete i d))"
      by (simp add: fold_delete_keys AList.delete_notin_dom)
    ultimately show ?thesis by (simp add: map_of_eq_None_iff)
  qed
qed

lemma write_monitor_frame:
  "write_monitor t m md = Inr t' \<Longrightarrow> n \<noteq> m_name m \<Longrightarrow> map_of t' n = map_of t n"
  by (auto simp: write_monitor_def AList.update_conv' map_add_def
        split: if_splits option.splits entry.splits)

lemma store_monitor_frame:
  "store_monitor env i m md s = (r, s') \<Longrightarrow> n \<noteq> m_name m \<Longrightarrow>
     map_of (disk s') n = map_of (disk s) n"
  by (auto simp: store_monitor_def Let_def log_def write_monitor_frame
        split: if_splits sum.splits)

lemma create_and_store_frame:
  assumes "create_and_store env subj c s = (r, s')"
  shows "\<exists>t. trace s' = trace s @ t \<and>
             (\<forall>n. n \<notin> snd ` set (stored t) \<longrightarrow> map_of (disk s') n = map_of (disk s) n)"
proof -
  let ?s1 = "log (CallCreate subj) s"
  have stop: ?thesis if "disk s' = disk s" and "trace s' = trace s @ [CallCreate subj]"
  proof -
    from that have "trace s' = trace s @ [CallCreate subj] \<and>
        (\<forall>n. n \<notin> snd ` set (stored [CallCreate subj]) \<longrightarrow>
             map_of (disk s') n = map_of (disk s) n)"
      by simp
    then show ?thesis by (rule exI[of _ "[CallCreate subj]"])
  qed
  show ?thesis
  proof (cases "arg_dryrun env")
    case True
    with assms have "disk s' = disk s" and "trace s' = trace s @ [CallCreate subj]"
      by (auto simp: create_and_store_def Let_def log_def split: option.splits)
    then show ?thesis by (rule stop)
  next
    case False
    obtain x srv where sc: "srv_create env (server ?s1) c = (x, srv)"
      by (cases "srv_create env (server ?s1) c")
    let ?s2 = "?s1\<lparr>server := srv\<rparr>"
    have base: "disk ?s2 = disk s" "trace ?s2 = trace s @ [CallCreate subj]"
      by (simp_all add: log_def)
    show ?thesis
    proof (cases x)
      case (Inl e)
      with assms False sc have "s' = ?s2"
        by (simp add: create_and_store_def Let_def)
      with base show ?thesis by (intro stop) simp_all
    next
      case (Inr made)
      show ?thesis
      proof (cases "m_id (zero_update_time made)")
        case None
        with assms False sc Inr have "s' = ?s2"
          by (simp add: create_and_store_def Let_def)
        with base show ?thesis by (intro stop) simp_all
      next
        case (Some new_id)
        let ?m = "zero_update_time made"
        obtain y s3 where st: "store_monitor env new_id ?m [] ?s2 = (y, s3)"
          by (cases "store_monitor env new_id ?m [] ?s2")
        from assms False sc Inr Some st have s3: "s' = s3"
          by (cases y) (auto simp: create_and_store_def Let_def and_then_def split: if_splits)
        let ?t = "[CallCreate subj, CallStore new_id (m_name ?m)]"
        from store_monitor_silent[OF st] base s3
        have tr: "trace s' = trace s @ ?t" by simp
        have fr: "\<forall>n. n \<notin> snd ` set (stored ?t) \<longrightarrow> map_of (disk s') n = map_of (disk s) n"
          using store_monitor_frame[OF st] base s3 by simp
        from tr fr have "trace s' = trace s @ ?t \<and>
            (\<forall>n. n \<notin> snd ` set (stored ?t) \<longrightarrow> map_of (disk s') n = map_of (disk s) n)"
          by simp
        then show ?thesis by (rule exI[of _ ?t])
      qed
    qed
  qed
qed

lemma offer_loop_frame:
  "offer_loop env items cn sk s = (Inr res, s') \<Longrightarrow>
     \<exists>t. trace s' = trace s @ t \<and>
         (\<forall>n. n \<notin> snd ` set (stored t) \<longrightarrow> map_of (disk s') n = map_of (disk s) n)"
proof (induction items arbitrary: cn sk s)
  case Nil
  then show ?case by simp
next
  case (Cons a rest)
  obtain i m where a: "a = (i, m)" by (cases a)
  show ?case
  proof (cases "map_of (remote_monitors s) i \<noteq> None")
    case True
    with Cons.prems a have "offer_loop env rest cn sk s = (Inr res, s')" by simp
    then show ?thesis by (rule Cons.IH)
  next
    case False
    obtain x s1 where c: "confirm env i ''general'' s = (x, s1)"
      by (cases "confirm env i ''general'' s")
    with Cons.prems a False obtain b where x: "x = Inr b" by (cases x) simp_all
    from c x have t1: "trace s1 = trace s @ [Confirm i ''general'' b]"
      by (simp add: confirm_trace)
    from confirm_keeps[OF c] have k1: "disk s1 = disk s" by simp
    show ?thesis
    proof (cases b)
      case nb: False
      with Cons.prems a False c x
      have "offer_loop env rest cn (sk @ [i]) s1 = (Inr res, s')" by simp
      from Cons.IH[OF this] obtain t where ih: "trace s' = trace s1 @ t"
        "\<forall>n. n \<notin> snd ` set (stored t) \<longrightarrow> map_of (disk s') n = map_of (disk s1) n"
        by blast
      let ?t = "Confirm i ''general'' b # t"
      from ih t1 k1
      have "trace s' = trace s @ ?t \<and>
            (\<forall>n. n \<notin> snd ` set (stored ?t) \<longrightarrow> map_of (disk s') n = map_of (disk s) n)"
        by simp
      then show ?thesis by (rule exI[of _ ?t])
    next
      case yb: True
      from Cons.prems a False c x yb obtain m' cnt where pr: "prepare_for_create m = Inr (m', cnt)"
        by (cases "prepare_for_create m") auto
      let ?s1 = "s1\<lparr>local_monitors := AList.update i m' (local_monitors s1)\<rparr>"
      obtain y s2 where cs: "create_and_store env i cnt ?s1 = (y, s2)"
        by (cases "create_and_store env i cnt ?s1")
      from Cons.prems a False c x yb pr cs
      have run: "offer_loop env rest True sk s2 = (Inr res, s')"
        by (cases y) simp_all
      from create_and_store_frame[OF cs] obtain t2
        where e2: "trace s2 = trace ?s1 @ t2"
          "\<forall>n. n \<notin> snd ` set (stored t2) \<longrightarrow> map_of (disk s2) n = map_of (disk ?s1) n"
        by blast
      from Cons.IH[OF run] obtain t where ih: "trace s' = trace s2 @ t"
        "\<forall>n. n \<notin> snd ` set (stored t) \<longrightarrow> map_of (disk s') n = map_of (disk s2) n"
        by blast
      let ?t = "Confirm i ''general'' b # t2 @ t"
      have fr: "map_of (disk s') n = map_of (disk s) n" if "n \<notin> snd ` set (stored ?t)" for n
      proof -
        from that have "n \<notin> snd ` set (stored t2)" and "n \<notin> snd ` set (stored t)"
          by (auto simp: stored_append)
        with ih(2) e2(2) k1 show ?thesis by simp
      qed
      from ih(1) e2(1) t1 have "trace s' = trace s @ ?t" by simp
      with fr
      have "trace s' = trace s @ ?t \<and>
            (\<forall>n. n \<notin> snd ` set (stored ?t) \<longrightarrow> map_of (disk s') n = map_of (disk s) n)"
        by blast
      then show ?thesis by (rule exI[of _ ?t])
    qed
  qed
qed

text \<open>
  C2 (as amended).  When the offer stage completes, every monitor whose creation was
  declined is gone from the in-memory local mapping, and only from there.  The stage
  removes no folder from the local store, and it changes a folder only by storing a
  created monitor under that monitor's name: every folder under whose name nothing was
  stored during the stage is exactly as before it.  So the folder of a declined monitor
  is untouched unless a creation accepted in the same stage is stored under its name.
  When nothing was created, the local store and the server are exactly as before the
  stage.  Nothing on disk records the decline.
\<close>

theorem declined_offer_stays_on_disk:
  assumes "offer_local_only env s = (Inr created_new, s')"
  shows "\<exists>t. trace s' = trace s @ t \<and>
             (\<forall>i \<in> set (declined t). map_of (local_monitors s') i = None) \<and>
             keys (disk s) \<subseteq> keys (disk s') \<and>
             (\<forall>n. n \<notin> snd ` set (stored t) \<longrightarrow> map_of (disk s') n = map_of (disk s) n) \<and>
             (\<not> created_new \<longrightarrow> disk s' = disk s \<and> server s' = server s)"
proof -
  from assms obtain sk s1
    where run: "offer_loop env (local_monitors s) False [] s = (Inr (created_new, sk), s1)"
      and s': "s' = s1\<lparr>local_monitors := fold AList.delete sk (local_monitors s1)\<rparr>"
    by (auto simp: offer_local_only_def split: prod.splits sum.splits)
  from offer_loop_effect[OF run] obtain t
    where e: "keys (disk s) \<subseteq> keys (disk s1)" "trace s1 = trace s @ t" "sk = declined t"
      "\<not> created_new \<longrightarrow> disk s1 = disk s \<and> server s1 = server s" by auto
  from offer_loop_frame[OF run] obtain t'
    where f: "trace s1 = trace s @ t'"
      "\<forall>n. n \<notin> snd ` set (stored t') \<longrightarrow> map_of (disk s1) n = map_of (disk s) n" by blast
  from e(2) f(1) have tt: "t' = t" by simp
  have "trace s' = trace s @ t \<and>
        (\<forall>i \<in> set (declined t). map_of (local_monitors s') i = None) \<and>
        keys (disk s) \<subseteq> keys (disk s') \<and>
        (\<forall>n. n \<notin> snd ` set (stored t) \<longrightarrow> map_of (disk s') n = map_of (disk s) n) \<and>
        (\<not> created_new \<longrightarrow> disk s' = disk s \<and> server s' = server s)"
    using e f(2) s' unfolding tt by (simp add: fold_delete_lookup)
  then show ?thesis by (rule exI[of _ t])
qed

theorem declined_offer_stays_on_disk_witness:
  "offer_local_only (demo_env False False)
     (snd (load_and_clean (demo_env False False) decline_start)) =
     (Inr False,
      snd (offer_local_only (demo_env False False)
             (snd (load_and_clean (demo_env False False) decline_start)))) \<and>
   disk (snd (offer_local_only (demo_env False False)
                (snd (load_and_clean (demo_env False False) decline_start)))) =
     disk (snd (load_and_clean (demo_env False False) decline_start))"
proof -
  let ?E = "demo_env False False"
  let ?s = "snd (load_and_clean ?E decline_start)"
  have "fst (offer_local_only ?E ?s) = Inr False" by code_simp
  then have r: "offer_local_only ?E ?s = (Inr False, snd (offer_local_only ?E ?s))"
    by (simp add: prod_eq_iff)
  from declined_offer_stays_on_disk[OF r] r show ?thesis by auto
qed


text \<open>
  C2 as stated fails: after the operator has declined the creation of the placeholder
  in folder \<open>M2\<close>, the pass ends with the folder still in the local store, and the next
  pass over what the first one left loads it and asks again.
\<close>

theorem declined_placeholder_is_offered_again:
  "fst (sync_pass (demo_env False False) decline_start) = Inr () \<and>
   trace (snd (sync_pass (demo_env False False) decline_start)) =
     [CallSearch, Confirm ''createqwertyuiop'' ''general'' False] \<and>
   disk (snd (sync_pass (demo_env False False) decline_start)) =
     [(''M2'', holding (plain_monitor [] 1 ''M2''))] \<and>
   trace (snd (sync_pass (demo_env False False)
            (start (disk (snd (sync_pass (demo_env False False) decline_start)))
               (server (snd (sync_pass (demo_env False False) decline_start))) [''no'']))) =
     [CallSearch, Confirm ''createqwertyuiop'' ''general'' False]"
  by code_simp

section \<open>De-duplication on load\<close>






































text \<open>
  For a store of exactly two such folders the outcome in full, by evaluation of the loop.
\<close>

lemma load_monitors_two_folders:
  assumes "disk s = [(m_name m1, Dir d1), (m_name m2, Dir d2)]"
    and "monitor_json d1 = Holds m1" and "monitor_json d2 = Holds m2"
    and "m_id m1 = Some i" and "m_id m2 = Some i" and "i \<noteq> []"
    and "m_name m1 \<noteq> m_name m2"
    and "plain_name (m_name m1)" and "plain_name (m_name m2)"
    and "\<not> dotfile (m_name m1)" and "\<not> dotfile (m_name m2)"
    and "extras d1 = []" and "extras d2 = []"
    and "cfg_filter env = None"
  shows "\<exists>s'. load_monitors env s = (Inr (), s') \<and> stdin s' = stdin s \<and>
           local_monitors s' = [(i, if m_version m1 < m_version m2 then m2 else m1)] \<and>
           trace s' =
             trace s @ [CallRemove (if m_version m1 < m_version m2 then m_name m1 else m_name m2)] \<and>
           disk s' =
             (if arg_dryrun env then disk s
              else if m_version m1 < m_version m2 then [(m_name m2, Dir d2)]
              else [(m_name m1, Dir d1)])"
  using assms
  by (simp add: load_monitors_def remove_monitor_def remove_dir_def Let_def log_def
        passes_filter_def)



text \<open>
  Why the folders must be named after their documents, and the names be theirs alone:
  \<open>remove_monitor\<close> is called with the name of the document, not of the folder.  When the
  older document sits in a folder of another name, the call fails on the missing folder
  and ends the run; when a folder elsewhere holds a document named like one of the two
  and loses against its own duplicate, the folder of that name is removed before its
  turn comes, whatever its version is.
\<close>

lemma misnamed_folder_stops_the_load:
  "fst (load_monitors (demo_env False False) misnamed_start) = Inl OSError \<and>
   trace (snd (load_monitors (demo_env False False) misnamed_start)) = [CallRemove ''new''] \<and>
   disk (snd (load_monitors (demo_env False False) misnamed_start)) = disk misnamed_start"
  by code_simp

lemma shared_name_removes_another_folder:
  "fst (load_monitors (demo_env False False) shared_name_start) = Inr () \<and>
   trace (snd (load_monitors (demo_env False False) shared_name_start)) =
     [CallRemove ''Alert-F''] \<and>
   map_of (local_monitors (snd (load_monitors (demo_env False False) shared_name_start))) ''M5'' =
     Some (plain_monitor ''M5'' 4 ''Alert-E'') \<and>
   map fst (disk (snd (load_monitors (demo_env False False) shared_name_start))) =
     [''copy'', ''other'', ''Alert-E'']"
  by code_simp



end
